theory Spec2Isabelle
  imports Main
begin

section \<open>Memory model\<close>

text \<open>
  The wrapped type \<open>T\<close> is a type variable \<open>'a\<close> with value semantics: copy construction and
  copy assignment of \<open>T\<close> reproduce the value and do not throw. A pointer \<open>T *\<close> is a natural
  number, \<open>0\<close> being \<open>nullptr\<close>; the object at address \<open>Suc i\<close> is the \<open>i\<close>-th cell of \<open>mem\<close>.
  \<open>new\<close> always takes a fresh address, so a freed cell is never handed out again and every
  access through a stale pointer is visible as a fault. Exhaustion of the free store
  (\<open>std::bad_alloc\<close>) is not modelled.

  A \<open>recursive_wrapper<T>\<close> object is identified by its index in \<open>objs\<close>; the entry is
  \<open>Some m_t\<close> during the lifetime of the object and \<open>None\<close> once its destructor has run.
  \<open>deleted\<close> records every address a \<open>delete\<close> expression has freed, in order.
\<close>

datatype 'a cell = Live 'a | Freed

datatype fault = NullDeref | Dangling | DoubleFree | NoObject | IllFormed

record 'a state =
  objs :: "nat option list"
  mem :: "'a cell list"
  deleted :: "nat list"

definition empty_state :: "'a state" where
  "empty_state = \<lparr>objs = [], mem = [], deleted = []\<rparr>"

definition and_then :: "'e + 'x \<Rightarrow> ('x \<Rightarrow> 'e + 'y) \<Rightarrow> 'e + 'y" where
  "and_then m f = (case m of Inl e \<Rightarrow> Inl e | Inr x \<Rightarrow> f x)"

definition cell_at :: "'a state \<Rightarrow> nat \<Rightarrow> 'a cell option" where
  "cell_at s p = (if p = 0 \<or> length (mem s) < p then None else Some (mem s ! (p - 1)))"

definition load :: "nat \<Rightarrow> 'a state \<Rightarrow> fault + 'a" where
  \<comment> \<open>reading \<open>*p\<close>\<close>
  "load p s =
     (if p = 0 then Inl NullDeref
      else case cell_at s p of Some (Live v) \<Rightarrow> Inr v | _ \<Rightarrow> Inl Dangling)"

definition store :: "nat \<Rightarrow> 'a \<Rightarrow> 'a state \<Rightarrow> fault + 'a state" where
  \<comment> \<open>\<open>*p = v\<close>: the assignment operator of \<open>T\<close> applied to the object at \<open>p\<close>\<close>
  "store p v s =
     (if p = 0 then Inl NullDeref
      else case cell_at s p of
             Some (Live _) \<Rightarrow> Inr (s\<lparr>mem := (mem s)[p - 1 := Live v]\<rparr>)
           | _ \<Rightarrow> Inl Dangling)"

definition new_T :: "'a \<Rightarrow> 'a state \<Rightarrow> nat \<times> 'a state" where
  \<comment> \<open>\<open>new T(v)\<close>\<close>
  "new_T v s = (Suc (length (mem s)), s\<lparr>mem := mem s @ [Live v]\<rparr>)"

definition delete_T :: "nat \<Rightarrow> 'a state \<Rightarrow> fault + 'a state" where
  \<comment> \<open>\<open>delete p\<close>; deleting \<open>nullptr\<close> does nothing\<close>
  "delete_T p s =
     (if p = 0 then Inr s
      else case cell_at s p of
             Some (Live _) \<Rightarrow> Inr (s\<lparr>mem := (mem s)[p - 1 := Freed], deleted := deleted s @ [p]\<rparr>)
           | Some Freed \<Rightarrow> Inl DoubleFree
           | None \<Rightarrow> Inl Dangling)"

definition m_t_of :: "nat \<Rightarrow> 'a state \<Rightarrow> fault + nat" where
  \<comment> \<open>reading the field \<open>m_t\<close> of the wrapper object \<open>w\<close>\<close>
  "m_t_of w s =
     (if w < length (objs s) then (case objs s ! w of Some p \<Rightarrow> Inr p | None \<Rightarrow> Inl NoObject)
      else Inl NoObject)"

definition set_m_t :: "nat \<Rightarrow> nat \<Rightarrow> 'a state \<Rightarrow> fault + 'a state" where
  \<comment> \<open>\<open>w.m_t = p\<close>\<close>
  "set_m_t w p s = and_then (m_t_of w s) (\<lambda>_. Inr (s\<lparr>objs := (objs s)[w := Some p]\<rparr>))"

definition new_object :: "nat \<Rightarrow> 'a state \<Rightarrow> nat \<times> 'a state" where
  \<comment> \<open>a wrapper object comes into existence with its member initialiser \<open>m_t(p)\<close>\<close>
  "new_object p s = (length (objs s), s\<lparr>objs := objs s @ [Some p]\<rparr>)"

definition end_object :: "nat \<Rightarrow> 'a state \<Rightarrow> 'a state" where
  "end_object w s = s\<lparr>objs := (objs s)[w := None]\<rparr>"

section \<open>\<open>recursive_wrapper\<close>\<close>

datatype qualification = MutableLvalue | ConstLvalue | Rvalue

definition destroy :: "nat \<Rightarrow> 'a state \<Rightarrow> fault + 'a state" where
  \<comment> \<open>\<open>if (m_t) { delete m_t; }\<close>\<close>
  "destroy this s =
     and_then (m_t_of this s) (\<lambda>p. if p \<noteq> 0 then delete_T p s else Inr s)"

definition dtor :: "nat \<Rightarrow> 'a state \<Rightarrow> fault + 'a state" where
  \<comment> \<open>\<open>~recursive_wrapper() noexcept { this->destroy(); }\<close>, after which the object is gone\<close>
  "dtor this s = and_then (destroy this s) (\<lambda>s'. Inr (end_object this s'))"

definition ctor_default :: "'a option \<Rightarrow> 'a state \<Rightarrow> fault + nat \<times> 'a state" where
  \<comment> \<open>\<open>recursive_wrapper() : m_t(new T()) {}\<close>; the argument is the value \<open>T()\<close>, or \<open>None\<close>
      when \<open>T\<close> has no default constructor and the member initialiser does not compile\<close>
  "ctor_default dflt s =
     (case dflt of
        None \<Rightarrow> Inl IllFormed
      | Some d \<Rightarrow> (let (p, s') = new_T d s in Inr (new_object p s')))"

definition ctor_from :: "('u \<Rightarrow> 'a) option \<Rightarrow> 'u \<Rightarrow> 'a state \<Rightarrow> fault + nat \<times> 'a state" where
  \<comment> \<open>\<open>recursive_wrapper(U && u) : m_t(new T(std::forward<U>(u))) {}\<close>, enabled only if
      \<open>std::is_convertible<U, T>\<close>; the argument is the conversion from \<open>U\<close> to \<open>T\<close>, or \<open>None\<close>
      when there is none\<close>
  "ctor_from conv u s =
     (case conv of
        None \<Rightarrow> Inl IllFormed
      | Some f \<Rightarrow> (let (p, s') = new_T (f u) s in Inr (new_object p s')))"

fun get :: "qualification \<Rightarrow> nat \<Rightarrow> 'a state \<Rightarrow> fault + nat" where
  \<comment> \<open>the three overloads \<open>T & get() &\<close>, \<open>const T & get() const &\<close>, \<open>T && get() &&\<close>;
      the result is the address of the object \<open>*m_t\<close> refers to\<close>
  "get MutableLvalue this s =
     and_then (m_t_of this s) (\<lambda>p. and_then (load p s) (\<lambda>_. Inr p))"
| "get ConstLvalue this s =
     and_then (m_t_of this s) (\<lambda>p. and_then (load p s) (\<lambda>_. Inr p))"
| "get Rvalue this s =
     and_then (m_t_of this s) (\<lambda>p. and_then (load p s) (\<lambda>_. Inr p))"

definition assign :: "nat \<Rightarrow> 'a \<Rightarrow> 'a state \<Rightarrow> fault + 'a state" where
  \<comment> \<open>\<open>void assign(U && u) { *m_t = std::forward<U>(u); }\<close>\<close>
  "assign this u s = and_then (m_t_of this s) (\<lambda>p. store p u s)"

definition ctor_copy :: "nat \<Rightarrow> 'a state \<Rightarrow> fault + nat \<times> 'a state" where
  \<comment> \<open>\<open>recursive_wrapper(const recursive_wrapper & rhs) : m_t(new T(rhs.get())) {}\<close>\<close>
  "ctor_copy rhs s =
     and_then (get ConstLvalue rhs s) (\<lambda>r.
     and_then (load r s) (\<lambda>v.
       let (p, s') = new_T v s in Inr (new_object p s')))"

definition ctor_move :: "nat \<Rightarrow> 'a state \<Rightarrow> fault + nat \<times> 'a state" where
  \<comment> \<open>\<open>recursive_wrapper(recursive_wrapper && rhs) noexcept : m_t(rhs.m_t) { rhs.m_t = nullptr; }\<close>\<close>
  "ctor_move rhs s =
     and_then (m_t_of rhs s) (\<lambda>p.
       let (this, s') = new_object p s in
       and_then (set_m_t rhs 0 s') (\<lambda>s''. Inr (this, s'')))"

definition assign_copy :: "nat \<Rightarrow> nat \<Rightarrow> 'a state \<Rightarrow> fault + 'a state" where
  \<comment> \<open>\<open>operator=(const recursive_wrapper & rhs) { this->assign(rhs.get()); return *this; }\<close>\<close>
  "assign_copy this rhs s =
     and_then (get ConstLvalue rhs s) (\<lambda>r.
     and_then (load r s) (\<lambda>v. assign this v s))"

definition assign_move :: "nat \<Rightarrow> nat \<Rightarrow> 'a state \<Rightarrow> fault + 'a state" where
  \<comment> \<open>\<open>operator=(recursive_wrapper && rhs) noexcept
        { this->destroy(); m_t = rhs.m_t; rhs.m_t = nullptr; return *this; }\<close>\<close>
  "assign_move this rhs s =
     and_then (destroy this s) (\<lambda>s1.
     and_then (m_t_of rhs s1) (\<lambda>p.
     and_then (set_m_t this p s1) (\<lambda>s2.
       set_m_t rhs 0 s2)))"

definition assign_const_ref :: "nat \<Rightarrow> 'a \<Rightarrow> 'a state \<Rightarrow> fault + 'a state" where
  \<comment> \<open>\<open>operator=(const T & t) { this->assign(t); return *this; }\<close>\<close>
  "assign_const_ref this t s = assign this t s"

definition assign_rvalue :: "nat \<Rightarrow> 'a \<Rightarrow> 'a state \<Rightarrow> fault + 'a state" where
  \<comment> \<open>\<open>operator=(T && t) { this->assign(std::move(t)); return *this; }\<close>\<close>
  "assign_rvalue this t s = assign this t s"

definition live :: "'a state \<Rightarrow> nat \<Rightarrow> bool" where
  "live s p = (case cell_at s p of Some (Live _) \<Rightarrow> True | _ \<Rightarrow> False)"

definition single_owner :: "'a state \<Rightarrow> bool" where
  "single_owner s =
     ((\<forall>w \<in> {..<length (objs s)}.
         case objs s ! w of None \<Rightarrow> True | Some p \<Rightarrow> p = 0 \<or> live s p)
      \<and> (\<forall>w1 \<in> {..<length (objs s)}. \<forall>w2 \<in> {..<length (objs s)}.
           objs s ! w1 = objs s ! w2 \<longrightarrow>
             w1 = w2 \<or> objs s ! w1 = None \<or> objs s ! w1 = Some 0)
      \<and> distinct (deleted s)
      \<and> (\<forall>p \<in> set (deleted s). cell_at s p = Some Freed))"

definition construct :: "'a \<Rightarrow> 'a state \<Rightarrow> nat \<times> 'a state" where
  "construct v s = new_object (fst (new_T v s)) (snd (new_T v s))"


definition two_wrappers :: "nat state" where
  "two_wrappers = \<lparr>objs = [Some 1, Some 2], mem = [Live 10, Live 20], deleted = []\<rparr>"

definition moved_from :: "nat state" where
  "moved_from = \<lparr>objs = [Some 0, Some 1], mem = [Live 10], deleted = []\<rparr>"

datatype ('u, 'a) operation =
    Construct "'a option"
  | Construct_from "('u \<Rightarrow> 'a) option" 'u
  | Copy_construct nat
  | Move_construct nat
  | Copy_assign nat nat
  | Move_assign nat nat
  | Assign_const_ref nat 'a
  | Assign_rvalue nat 'a
  | Get qualification nat
  | Destruct nat

fun run :: "('u, 'a) operation \<Rightarrow> 'a state \<Rightarrow> fault + 'a state" where
  "run (Construct d) s = and_then (ctor_default d s) (\<lambda>r. Inr (snd r))"
| "run (Construct_from c u) s = and_then (ctor_from c u s) (\<lambda>r. Inr (snd r))"
| "run (Copy_construct rhs) s = and_then (ctor_copy rhs s) (\<lambda>r. Inr (snd r))"
| "run (Move_construct rhs) s = and_then (ctor_move rhs s) (\<lambda>r. Inr (snd r))"
| "run (Copy_assign this rhs) s = assign_copy this rhs s"
| "run (Move_assign this rhs) s = assign_move this rhs s"
| "run (Assign_const_ref this t) s = assign_const_ref this t s"
| "run (Assign_rvalue this t) s = assign_rvalue this t s"
| "run (Get q this) s = and_then (get q this s) (\<lambda>_. Inr s)"
| "run (Destruct this) s = dtor this s"

fun run_all :: "('u, 'a) operation list \<Rightarrow> 'a state \<Rightarrow> fault + 'a state" where
  "run_all [] s = Inr s"
| "run_all (x # xs) s = and_then (run x s) (run_all xs)"


section \<open>Type traits\<close>

text \<open>
  The traits of \<open>recursive_wrapper.hpp\<close> compute on types. A type is a term of \<open>cpp_type\<close>:
  an arithmetic type with its category and width in bits, a class type by name, a reference, or
  \<open>recursive_wrapper<T>\<close>. The standard traits the header uses are read off the type; for a
  class type they are looked up in a table (\<open>class_info\<close>), which is a parameter.
\<close>

datatype category = Boolean | SignedInteger | UnsignedInteger | FloatingPoint

datatype cpp_type =
    Arithmetic category nat
  | Class string
  | Reference cpp_type
  | Recursive_wrapper cpp_type

record class_info =
  nothrow_move_ctor :: bool
  nothrow_dtor :: bool

fun is_reference :: "cpp_type \<Rightarrow> bool" where
  "is_reference (Reference _) = True"
| "is_reference _ = False"

fun is_nothrow_destructible :: "(string \<Rightarrow> class_info) \<Rightarrow> cpp_type \<Rightarrow> bool" where
  "is_nothrow_destructible env (Arithmetic _ _) = True"
| "is_nothrow_destructible env (Class n) = nothrow_dtor (env n)"
| "is_nothrow_destructible env (Reference _) = True"
| "is_nothrow_destructible env (Recursive_wrapper _) = True"
  \<comment> \<open>\<open>~recursive_wrapper() noexcept\<close>\<close>

fun is_nothrow_move_constructible :: "(string \<Rightarrow> class_info) \<Rightarrow> cpp_type \<Rightarrow> bool" where
  "is_nothrow_move_constructible env (Arithmetic _ _) = True"
| "is_nothrow_move_constructible env (Class n) = nothrow_move_ctor (env n)"
| "is_nothrow_move_constructible env (Reference _) = True"
| "is_nothrow_move_constructible env (Recursive_wrapper _) = True"
  \<comment> \<open>\<open>recursive_wrapper(recursive_wrapper && rhs) noexcept\<close>\<close>

fun unwrap_type :: "cpp_type \<Rightarrow> cpp_type" where
  \<comment> \<open>\<open>unwrap_type<recursive_wrapper<T>>::type = T\<close>, and \<open>unwrap_type<T>::type = T\<close> otherwise\<close>
  "unwrap_type (Recursive_wrapper T) = T"
| "unwrap_type T = T"

definition wrap_if_throwing_move :: "(string \<Rightarrow> class_info) \<Rightarrow> cpp_type \<Rightarrow> cpp_type option" where
  \<comment> \<open>the primary template is enabled only for
      \<open>std::is_nothrow_destructible<T>::value && !std::is_reference<T>::value\<close>; then
      \<open>type = std::conditional<std::is_nothrow_move_constructible<T>::value, T,
      recursive_wrapper<T>>::type\<close>. \<open>None\<close>: the trait has no member \<open>type\<close>.\<close>
  "wrap_if_throwing_move env T =
     (if is_nothrow_destructible env T \<and> \<not> is_reference T
      then Some (if is_nothrow_move_constructible env T then T else Recursive_wrapper T)
      else None)"

section \<open>Piercing\<close>

fun pierce_recursive_wrapper_bare :: "qualification \<Rightarrow> 'r \<Rightarrow> 'r" where
  \<comment> \<open>the overloads on \<open>T &\<close>, \<open>const T &\<close> and \<open>T &&\<close>: each returns its argument\<close>
  "pierce_recursive_wrapper_bare MutableLvalue t = t"
| "pierce_recursive_wrapper_bare ConstLvalue t = t"
| "pierce_recursive_wrapper_bare Rvalue t = t"

fun pierce_recursive_wrapper :: "qualification \<Rightarrow> nat \<Rightarrow> 'a state \<Rightarrow> fault + nat" where
  \<comment> \<open>the overloads on \<open>recursive_wrapper<T> &\<close>, \<open>const recursive_wrapper<T> &\<close> and
      \<open>recursive_wrapper<T> &&\<close>. In the last, the parameter \<open>t\<close> is a named reference, hence
      an lvalue, so \<open>t.get()\<close> is the overload \<open>T & get() &\<close>, and \<open>std::move\<close> casts its
      result.\<close>
  "pierce_recursive_wrapper MutableLvalue t s = get MutableLvalue t s"
| "pierce_recursive_wrapper ConstLvalue t s = get ConstLvalue t s"
| "pierce_recursive_wrapper Rvalue t s = get MutableLvalue t s"

section \<open>The alternative resolver\<close>

text \<open>
  \<open>variant.hpp\<close> is not among the sources; the resolver, the container, type-indexed access
  and visitor dispatch below follow the specification's description of them
  (sections 4.2 and 4.4 to 4.6), on top of the wrapper and the piercing functions above.
\<close>

text \<open>Modelled from the spec: the ways resolution fails (\<open>variant.hpp\<close> is missing): an
  alternative list with a duplicate, more than one candidate in the deciding tier, no candidate
  in any tier.\<close>

datatype rejection = Duplicate_alternatives | Ambiguous | No_match

fun is_arithmetic :: "cpp_type \<Rightarrow> bool" where
  "is_arithmetic (Arithmetic _ _) = True"
| "is_arithmetic _ = False"

text \<open>Modelled from the spec: the first tier of the resolver (\<open>variant.hpp\<close> is missing),
  ``exact type match (after unwrapping indirection)''.\<close>

definition exact_match :: "cpp_type \<Rightarrow> cpp_type \<Rightarrow> bool" where
  "exact_match U A \<longleftrightarrow> unwrap_type A = unwrap_type U"

text \<open>Modelled from the spec: the second tier of the resolver (\<open>variant.hpp\<close> is missing),
  a conversion within one of the categories boolean, signed integer, unsigned integer and
  floating point, to a type that is wider or of equal width.\<close>

fun widening :: "cpp_type \<Rightarrow> cpp_type \<Rightarrow> bool" where
  "widening (Arithmetic cu wu) (Arithmetic ca wa) = (cu = ca \<and> wu \<le> wa)"
| "widening _ _ = False"

text \<open>Modelled from the spec: the second tier, after unwrapping indirection
  (\<open>variant.hpp\<close> is missing).\<close>

definition safe_widening :: "cpp_type \<Rightarrow> cpp_type \<Rightarrow> bool" where
  "safe_widening U A \<longleftrightarrow> widening (unwrap_type U) (unwrap_type A)"

text \<open>Modelled from the spec: the third tier of the resolver (\<open>variant.hpp\<close> is missing),
  ``a user-defined/implicit conversion not covered above''. Which types convert implicitly
  is the host language's business and is the parameter \<open>conv\<close>; a pair of arithmetic types is
  covered above.\<close>

definition other_conversion :: "(cpp_type \<Rightarrow> cpp_type \<Rightarrow> bool) \<Rightarrow> cpp_type \<Rightarrow> cpp_type \<Rightarrow> bool" where
  "other_conversion conv U A \<longleftrightarrow>
     \<not> exact_match U A
     \<and> \<not> (is_arithmetic (unwrap_type U) \<and> is_arithmetic (unwrap_type A))
     \<and> conv (unwrap_type U) (unwrap_type A)"

text \<open>Modelled from the spec: the candidates of a tier, as indices into the alternative
  list, and the tiers from most to least preferred (\<open>variant.hpp\<close> is missing).\<close>

definition candidates :: "(cpp_type \<Rightarrow> bool) \<Rightarrow> cpp_type list \<Rightarrow> nat list" where
  "candidates P alts = filter (\<lambda>i. P (alts ! i)) [0..<length alts]"

definition tiers :: "(cpp_type \<Rightarrow> cpp_type \<Rightarrow> bool) \<Rightarrow> cpp_type \<Rightarrow> cpp_type list \<Rightarrow> nat list list" where
  "tiers conv U alts =
     [candidates (exact_match U) alts,
      candidates (safe_widening U) alts,
      candidates (other_conversion conv U) alts]"

fun first_nonempty :: "nat list list \<Rightarrow> nat list" where
  "first_nonempty [] = []"
| "first_nonempty (t # ts) = (if t = [] then first_nonempty ts else t)"

text \<open>Modelled from the spec: the resolver's algorithm (\<open>variant.hpp\<close> is missing). Step 1
  rejects a list in which a type occurs twice after unwrapping; steps 2 to 4 take the
  most-preferred tier that has a candidate, and select if it has exactly one.\<close>

definition resolve :: "(cpp_type \<Rightarrow> cpp_type \<Rightarrow> bool) \<Rightarrow> cpp_type \<Rightarrow> cpp_type list \<Rightarrow> rejection + nat" where
  "resolve conv U alts =
     (if \<not> distinct (map unwrap_type alts) then Inl Duplicate_alternatives
      else case first_nonempty (tiers conv U alts) of
             [] \<Rightarrow> Inl No_match
           | [i] \<Rightarrow> Inr i
           | _ \<Rightarrow> Inl Ambiguous)"

text \<open>Modelled from the spec: the conversions that make an alternative a candidate in some
  tier (\<open>variant.hpp\<close> is missing).\<close>

definition admitted :: "(cpp_type \<Rightarrow> cpp_type \<Rightarrow> bool) \<Rightarrow> cpp_type \<Rightarrow> cpp_type \<Rightarrow> bool" where
  "admitted conv U A \<longleftrightarrow> exact_match U A \<or> safe_widening U A \<or> other_conversion conv U A"

section \<open>The container\<close>

text \<open>Modelled from the spec: the union instance of section 3 (\<open>variant.hpp\<close> is missing).
  The storage of a container holds the active alternative in place: a value of \<open>T\<close> for an
  alternative \<open>T\<close>, the wrapper object for an alternative \<open>recursive_wrapper<T>\<close>; \<open>which\<close>
  is the discriminant. Values of all alternative types live in one type \<open>'a\<close>; what the
  alternative types themselves provide (the static type of a value, which types convert
  implicitly, and the converting constructors) is the parameter \<open>host\<close>.\<close>

datatype 'a storage = Direct 'a | Indirect nat

record 'a variant =
  which :: nat
  stored :: "'a storage"

record 'a host =
  type_of :: "'a \<Rightarrow> cpp_type"
  convertible :: "cpp_type \<Rightarrow> cpp_type \<Rightarrow> bool"
  convert :: "cpp_type \<Rightarrow> 'a \<Rightarrow> 'a"

text \<open>Modelled from the spec: the value an alternative is constructed with from an input
  (\<open>variant.hpp\<close> is missing): a copy on an exact match, the conversion otherwise.\<close>

definition target_value :: "'a host \<Rightarrow> cpp_type \<Rightarrow> 'a \<Rightarrow> 'a" where
  "target_value h A u =
     (if type_of h u = unwrap_type A then u else convert h (unwrap_type A) u)"

text \<open>Modelled from the spec: construct-alternative of section 4.3 (\<open>variant.hpp\<close> is
  missing); an alternative that is a wrapper is constructed by the wrapper's converting
  constructor.\<close>

definition construct_alternative ::
  "'a host \<Rightarrow> cpp_type \<Rightarrow> 'a \<Rightarrow> 'a state \<Rightarrow> fault + 'a storage \<times> 'a state" where
  "construct_alternative h A u s =
     (case A of
        Recursive_wrapper _ \<Rightarrow>
          and_then (ctor_from (Some (target_value h A)) u s) (\<lambda>r. Inr (Indirect (fst r), snd r))
      | _ \<Rightarrow> Inr (Direct (target_value h A u), s))"

text \<open>Modelled from the spec: destroy-active of section 4.3 (\<open>variant.hpp\<close> is missing).\<close>

definition destroy_active :: "'a variant \<Rightarrow> 'a state \<Rightarrow> fault + 'a state" where
  "destroy_active v s = (case stored v of Direct _ \<Rightarrow> Inr s | Indirect w \<Rightarrow> dtor w s)"

text \<open>Modelled from the spec: converting assignment of section 4.4 (\<open>variant.hpp\<close> is
  missing). The target alternative is resolved from the type of the value; a failed resolution
  is a compile-time rejection. The same alternative is assigned in place, through the wrapper
  if there is one; otherwise the active alternative is destroyed and the new one constructed.\<close>

definition variant_assign ::
  "'a host \<Rightarrow> cpp_type list \<Rightarrow> 'a variant \<Rightarrow> 'a \<Rightarrow> 'a state \<Rightarrow> fault + 'a variant \<times> 'a state" where
  "variant_assign h alts v u s =
     (case resolve (convertible h) (type_of h u) alts of
        Inl _ \<Rightarrow> Inl IllFormed
      | Inr i \<Rightarrow>
          if i = which v then
            (case stored v of
               Direct _ \<Rightarrow> Inr (v\<lparr>stored := Direct (target_value h (alts ! i) u)\<rparr>, s)
             | Indirect w \<Rightarrow>
                 and_then (assign_rvalue w (target_value h (alts ! i) u) s) (\<lambda>s'. Inr (v, s')))
          else
            and_then (destroy_active v s) (\<lambda>s1.
            and_then (construct_alternative h (alts ! i) u s1) (\<lambda>r.
              Inr (\<lparr>which = i, stored = fst r\<rparr>, snd r))))"


text \<open>Modelled from the spec: type-indexed access of section 4.5 (\<open>variant.hpp\<close> is missing).
  The result is the value the returned pointer refers to, or \<open>None\<close> for the null pointer.
  The requested type is compared with the active alternative, both unwrapped; no conversion
  is considered.\<close>

definition access :: "cpp_type list \<Rightarrow> cpp_type \<Rightarrow> 'a variant \<Rightarrow> 'a state \<Rightarrow> fault + 'a option" where
  "access alts T v s =
     (if which v < length alts \<and> unwrap_type (alts ! which v) = unwrap_type T then
        (case stored v of
           Direct x \<Rightarrow> Inr (Some (pierce_recursive_wrapper_bare ConstLvalue x))
         | Indirect w \<Rightarrow>
             and_then (pierce_recursive_wrapper ConstLvalue w s) (\<lambda>p.
             and_then (load p s) (\<lambda>x. Inr (Some x))))
      else Inr None)"

text \<open>Modelled from the spec: visitor dispatch of section 4.6 (\<open>variant.hpp\<close> is missing).
  A visitor gives a branch for an unwrapped alternative type, or none; a visitor without a
  branch for some alternative is rejected when \<open>apply\<close> is instantiated.\<close>

definition apply_visitor ::
  "(cpp_type \<Rightarrow> ('a \<Rightarrow> 'r) option) \<Rightarrow> cpp_type list \<Rightarrow> 'a variant \<Rightarrow> 'a state \<Rightarrow> fault + 'r" where
  "apply_visitor visitor alts v s =
     (if list_ex (\<lambda>A. visitor (unwrap_type A) = None) alts \<or> length alts \<le> which v
      then Inl IllFormed
      else case visitor (unwrap_type (alts ! which v)) of
             None \<Rightarrow> Inl IllFormed
           | Some f \<Rightarrow>
               (case stored v of
                  Direct x \<Rightarrow> Inr (f (pierce_recursive_wrapper_bare ConstLvalue x))
                | Indirect w \<Rightarrow>
                    and_then (pierce_recursive_wrapper ConstLvalue w s) (\<lambda>p.
                    and_then (load p s) (\<lambda>x. Inr (f x)))))"

section \<open>The tutorial's container\<close>

text \<open>\<open>variant<int, std::string>\<close> of \<open>tutorial_basic.cpp\<close>, and the values it is given there:
  integers, strings and string literals.\<close>

datatype tutorial_value = IntV int | StringV string | LiteralV string

definition int_type :: cpp_type where
  "int_type = Arithmetic SignedInteger 32"

definition string_type :: cpp_type where
  "string_type = Class ''std::string''"

definition literal_type :: cpp_type where
  "literal_type = Class ''const char *''"

fun tutorial_type_of :: "tutorial_value \<Rightarrow> cpp_type" where
  "tutorial_type_of (IntV _) = int_type"
| "tutorial_type_of (StringV _) = string_type"
| "tutorial_type_of (LiteralV _) = literal_type"

fun tutorial_convert :: "cpp_type \<Rightarrow> tutorial_value \<Rightarrow> tutorial_value" where
  "tutorial_convert (Class _) (LiteralV s) = StringV s"
| "tutorial_convert _ v = v"

definition tutorial_host :: "tutorial_value host" where
  "tutorial_host =
     \<lparr>type_of = tutorial_type_of,
      convertible = (\<lambda>U A. U = literal_type \<and> A = string_type),
      convert = tutorial_convert\<rparr>"

definition tutorial_alts :: "cpp_type list" where
  "tutorial_alts = [int_type, string_type]"

definition no_classes :: "string \<Rightarrow> class_info" where
  "no_classes = (\<lambda>_. \<lparr>nothrow_move_ctor = True, nothrow_dtor = True\<rparr>)"

definition legacy_classes :: "string \<Rightarrow> class_info" where
  \<comment> \<open>a class \<open>legacy\<close> whose move constructor may throw\<close>
  "legacy_classes = (\<lambda>n. \<lparr>nothrow_move_ctor = (n \<noteq> ''legacy''), nothrow_dtor = True\<rparr>)"

definition holds_six :: "tutorial_value variant" where
  "holds_six = \<lparr>which = 0, stored = Direct (IntV 6)\<rparr>"

definition int_in_place :: "nat variant" where
  "int_in_place = \<lparr>which = 0, stored = Direct 10\<rparr>"

definition int_wrapped :: "nat variant" where
  "int_wrapped = \<lparr>which = 0, stored = Indirect 0\<rparr>"

definition holds_bar :: "tutorial_value variant" where
  "holds_bar = \<lparr>which = 1, stored = Direct (StringV ''bar'')\<rparr>"


definition boxed_five :: "tutorial_value variant" where
  "boxed_five = \<lparr>which = 0, stored = Indirect 0\<rparr>"

definition boxed_five_state :: "tutorial_value state" where
  "boxed_five_state = \<lparr>objs = [Some 1], mem = [Live (IntV 5)], deleted = []\<rparr>"


section \<open>Properties of the memory model and of the wrapper\<close>

lemma and_then_simps [simp]:
  "and_then (Inr x) f = f x" "and_then (Inl e) f = Inl e"
  by (simp_all add: and_then_def)

lemma and_then_eq_Inr: "and_then m f = Inr y \<longleftrightarrow> (\<exists>x. m = Inr x \<and> f x = Inr y)"
  by (cases m) simp_all

lemma m_t_of_eq_Inr: "m_t_of w s = Inr p \<longleftrightarrow> w < length (objs s) \<and> objs s ! w = Some p"
  by (auto simp: m_t_of_def split: option.splits)

lemma owner_live_iff:
  "(\<forall>w \<in> {..<length (objs s)}. case objs s ! w of None \<Rightarrow> True | Some p \<Rightarrow> p = 0 \<or> live s p)
   \<longleftrightarrow> (\<forall>w p. m_t_of w s = Inr p \<longrightarrow> p = 0 \<or> live s p)"
  unfolding m_t_of_eq_Inr by (auto split: option.splits)

lemma owner_unique_iff:
  "(\<forall>w1 \<in> {..<length (objs s)}. \<forall>w2 \<in> {..<length (objs s)}.
      objs s ! w1 = objs s ! w2 \<longrightarrow> w1 = w2 \<or> objs s ! w1 = None \<or> objs s ! w1 = Some 0)
   \<longleftrightarrow> (\<forall>w1 w2 p. m_t_of w1 s = Inr p \<and> m_t_of w2 s = Inr p \<and> p \<noteq> 0 \<longrightarrow> w1 = w2)"
  (is "?L \<longleftrightarrow> ?R")
proof
  assume l: ?L
  show ?R
  proof (intro allI impI)
    fix w1 w2 p
    assume a: "m_t_of w1 s = Inr p \<and> m_t_of w2 s = Inr p \<and> p \<noteq> 0"
    then have "w1 < length (objs s)" "w2 < length (objs s)"
      "objs s ! w1 = Some p" "objs s ! w2 = Some p" "p \<noteq> 0"
      by (simp_all add: m_t_of_eq_Inr)
    then have c: "w1 \<in> {..<length (objs s)}" "w2 \<in> {..<length (objs s)}"
      "objs s ! w1 = objs s ! w2" "objs s ! w1 \<noteq> None" "objs s ! w1 \<noteq> Some 0"
      by simp_all
    from l c(1,2) have "objs s ! w1 = objs s ! w2 \<longrightarrow>
        w1 = w2 \<or> objs s ! w1 = None \<or> objs s ! w1 = Some 0" by blast
    with c(3,4,5) show "w1 = w2" by auto
  qed
next
  assume r: ?R
  show ?L
  proof (intro ballI impI)
    fix w1 w2
    assume b: "w1 \<in> {..<length (objs s)}" "w2 \<in> {..<length (objs s)}"
      and e: "objs s ! w1 = objs s ! w2"
    show "w1 = w2 \<or> objs s ! w1 = None \<or> objs s ! w1 = Some 0"
    proof (cases "objs s ! w1")
      case None
      then show ?thesis by simp
    next
      case (Some p)
      with b e have "m_t_of w1 s = Inr p" "m_t_of w2 s = Inr p"
        by (simp_all add: m_t_of_eq_Inr)
      with r have "p \<noteq> 0 \<longrightarrow> w1 = w2" by blast
      with Some show ?thesis by auto
    qed
  qed
qed

lemma single_owner_iff:
  "single_owner s \<longleftrightarrow>
     (\<forall>w p. m_t_of w s = Inr p \<longrightarrow> p = 0 \<or> live s p)
   \<and> (\<forall>w1 w2 p. m_t_of w1 s = Inr p \<and> m_t_of w2 s = Inr p \<and> p \<noteq> 0 \<longrightarrow> w1 = w2)
   \<and> distinct (deleted s)
   \<and> (\<forall>p \<in> set (deleted s). cell_at s p = Some Freed)"
  unfolding single_owner_def owner_live_iff owner_unique_iff ..

lemma live_iff: "live s p \<longleftrightarrow> p \<noteq> 0 \<and> p \<le> length (mem s) \<and> (\<exists>v. mem s ! (p - 1) = Live v)"
  by (simp add: live_def cell_at_def split: cell.splits)

lemma live_bound: "live s p \<Longrightarrow> p \<noteq> 0 \<and> p \<le> length (mem s)"
  by (simp add: live_iff)

lemma live_cell: "live s p \<longleftrightarrow> (\<exists>v. cell_at s p = Some (Live v))"
  by (simp add: live_def split: option.splits cell.splits)

lemma load_eq_Inr: "load p s = Inr v \<longleftrightarrow> cell_at s p = Some (Live v)"
  by (simp add: load_def cell_at_def split: option.splits cell.splits)

lemma store_cases:
  "store p v s =
     (if p = 0 then Inl NullDeref
      else if live s p then Inr (s\<lparr>mem := (mem s)[p - 1 := Live v]\<rparr>) else Inl Dangling)"
  by (simp add: store_def live_def split: option.splits cell.splits)

lemma store_eq_Inr:
  "store p v s = Inr s' \<longleftrightarrow> live s p \<and> s' = s\<lparr>mem := (mem s)[p - 1 := Live v]\<rparr>"
  using live_bound[of s p] by (simp add: store_cases) blast

lemma delete_T_live:
  "live s p \<Longrightarrow> delete_T p s = Inr (s\<lparr>mem := (mem s)[p - 1 := Freed], deleted := deleted s @ [p]\<rparr>)"
  using live_bound[of s p] by (simp add: delete_T_def live_def split: option.splits cell.splits)

lemma delete_T_not_live: "p \<noteq> 0 \<Longrightarrow> \<not> live s p \<Longrightarrow> \<exists>e. delete_T p s = Inl e"
  by (simp add: delete_T_def live_def split: option.splits cell.splits)

lemma delete_T_eq_Inr:
  "delete_T p s = Inr s' \<longleftrightarrow>
     (p = 0 \<and> s' = s) \<or>
     (live s p \<and> s' = s\<lparr>mem := (mem s)[p - 1 := Freed], deleted := deleted s @ [p]\<rparr>)"
proof (cases "p = 0")
  case True
  then show ?thesis using live_bound[of s p] by (auto simp: delete_T_def)
next
  case False
  show ?thesis
  proof (cases "live s p")
    case True
    with False show ?thesis by (simp add: delete_T_live) blast
  next
    case nl: False
    with False delete_T_not_live[of p s] show ?thesis by auto
  qed
qed

lemma set_m_t_eq_Inr:
  "set_m_t w p s = Inr s' \<longleftrightarrow>
     (\<exists>q. m_t_of w s = Inr q) \<and> s' = s\<lparr>objs := (objs s)[w := Some p]\<rparr>"
  unfolding set_m_t_def and_then_eq_Inr by blast

lemma destroy_empty: "m_t_of w s = Inr 0 \<Longrightarrow> destroy w s = Inr s"
  by (simp add: destroy_def)

lemma destroy_owned:
  "m_t_of w s = Inr p \<Longrightarrow> live s p \<Longrightarrow>
   destroy w s = Inr (s\<lparr>mem := (mem s)[p - 1 := Freed], deleted := deleted s @ [p]\<rparr>)"
  using live_bound[of s p] by (simp add: destroy_def delete_T_live)

lemma cell_at_bound: "cell_at s p = Some c \<Longrightarrow> p \<noteq> 0 \<and> p \<le> length (mem s)"
  by (auto simp: cell_at_def split: if_splits)

lemma destroy_Inr_cases:
  assumes "destroy w s = Inr s'"
  obtains "m_t_of w s = Inr 0" "s' = s"
  | p where "m_t_of w s = Inr p" "live s p"
      "s' = s\<lparr>mem := (mem s)[p - 1 := Freed], deleted := deleted s @ [p]\<rparr>"
proof (cases "m_t_of w s")
  case (Inl e)
  with assms show ?thesis by (simp add: destroy_def)
next
  case (Inr p)
  show ?thesis
  proof (cases "p = 0")
    case True
    with Inr assms have "m_t_of w s = Inr 0" "s' = s" by (simp_all add: destroy_empty)
    then show ?thesis by (rule that(1))
  next
    case False
    show ?thesis
    proof (cases "live s p")
      case True
      with Inr assms have "s' = s\<lparr>mem := (mem s)[p - 1 := Freed], deleted := deleted s @ [p]\<rparr>"
        by (simp add: destroy_owned)
      with Inr True show ?thesis by (rule that(2))
    next
      case nl: False
      with False obtain e where "delete_T p s = Inl e" using delete_T_not_live by blast
      with Inr False assms have False by (simp add: destroy_def)
      then show ?thesis ..
    qed
  qed
qed

lemma get_eq_Inr: "get q w s = Inr p \<longleftrightarrow> m_t_of w s = Inr p \<and> live s p"
  by (cases q) (auto simp: and_then_eq_Inr load_eq_Inr live_cell)

lemma assign_eq_Inr:
  "assign w v s = Inr s' \<longleftrightarrow>
     (\<exists>p. m_t_of w s = Inr p \<and> live s p \<and> s' = s\<lparr>mem := (mem s)[p - 1 := Live v]\<rparr>)"
  unfolding assign_def and_then_eq_Inr store_eq_Inr ..


lemma so_live: "single_owner s \<Longrightarrow> m_t_of w s = Inr p \<Longrightarrow> p \<noteq> 0 \<Longrightarrow> live s p"
  unfolding single_owner_iff by blast

lemma so_unique:
  "single_owner s \<Longrightarrow> m_t_of w1 s = Inr p \<Longrightarrow> m_t_of w2 s = Inr p \<Longrightarrow> p \<noteq> 0 \<Longrightarrow> w1 = w2"
  unfolding single_owner_iff by blast

lemma so_distinct: "single_owner s \<Longrightarrow> distinct (deleted s)"
  unfolding single_owner_iff by blast

lemma so_freed: "single_owner s \<Longrightarrow> q \<in> set (deleted s) \<Longrightarrow> cell_at s q = Some Freed"
  unfolding single_owner_iff by blast

lemma single_ownerI:
  assumes "\<And>w p. m_t_of w s = Inr p \<Longrightarrow> p \<noteq> 0 \<Longrightarrow> live s p"
    and "\<And>w1 w2 p. m_t_of w1 s = Inr p \<Longrightarrow> m_t_of w2 s = Inr p \<Longrightarrow> p \<noteq> 0 \<Longrightarrow> w1 = w2"
    and "distinct (deleted s)"
    and "\<And>q. q \<in> set (deleted s) \<Longrightarrow> cell_at s q = Some Freed"
  shows "single_owner s"
  using assms unfolding single_owner_iff by blast

lemma live_not_deleted: "single_owner s \<Longrightarrow> live s p \<Longrightarrow> p \<notin> set (deleted s)"
  by (auto simp: live_cell dest: so_freed)

lemma m_t_of_cong: "objs s' = objs s \<Longrightarrow> m_t_of w s' = m_t_of w s"
  by (simp add: m_t_of_def)

lemma cell_at_cong: "mem s' = mem s \<Longrightarrow> cell_at s' p = cell_at s p"
  by (simp add: cell_at_def)

lemma live_cong: "mem s' = mem s \<Longrightarrow> live s' p = live s p"
  by (simp add: live_def cell_at_cong[of s' s])

lemma cell_at_update:
  "mem s' = (mem s)[p - 1 := c] \<Longrightarrow> p \<noteq> 0 \<Longrightarrow> p \<le> length (mem s) \<Longrightarrow>
   cell_at s' q = (if q = p then Some c else cell_at s q)"
  by (auto simp: cell_at_def nth_list_update)

lemma cell_at_append:
  "mem s' = mem s @ [c] \<Longrightarrow> cell_at s' q = (if q = Suc (length (mem s)) then Some c else cell_at s q)"
  by (auto simp: cell_at_def nth_append)

lemma m_t_of_bound: "m_t_of w s = Inr p \<Longrightarrow> w < length (objs s)"
  by (simp add: m_t_of_eq_Inr)

lemma m_t_of_update:
  "objs s' = (objs s)[w' := x] \<Longrightarrow> w' < length (objs s) \<Longrightarrow>
   m_t_of w s' = (if w = w' then (case x of Some p \<Rightarrow> Inr p | None \<Rightarrow> Inl NoObject) else m_t_of w s)"
  by (simp add: m_t_of_def)

lemma m_t_of_append:
  "objs s' = objs s @ [Some p] \<Longrightarrow>
   m_t_of w s' = (if w = length (objs s) then Inr p else m_t_of w s)"
  by (simp add: m_t_of_def nth_append)

text \<open>Frame lemmas: the invariant under the four kinds of state change the operations make.\<close>

lemma so_store:
  assumes so: "single_owner s" and lp: "live s p"
    and o: "objs s' = objs s" and d: "deleted s' = deleted s"
    and m: "mem s' = (mem s)[p - 1 := Live v]"
  shows "single_owner s'"
proof (rule single_ownerI)
  have c: "cell_at s' q = (if q = p then Some (Live v) else cell_at s q)" for q
    using cell_at_update[OF m] live_bound[OF lp] by simp
  fix w0 p0 assume "m_t_of w0 s' = Inr p0" "p0 \<noteq> 0"
  then have "live s p0" using so by (simp add: m_t_of_cong[OF o] so_live)
  then show "live s' p0" by (simp add: live_cell c)
next
  fix w1 w2 p0 assume "m_t_of w1 s' = Inr p0" "m_t_of w2 s' = Inr p0" "p0 \<noteq> 0"
  then show "w1 = w2" using so by (simp add: m_t_of_cong[OF o] so_unique)
next
  show "distinct (deleted s')" using so by (simp add: d so_distinct)
next
  have c: "cell_at s' q = (if q = p then Some (Live v) else cell_at s q)" for q
    using cell_at_update[OF m] live_bound[OF lp] by simp
  fix q assume "q \<in> set (deleted s')"
  then have "cell_at s q = Some Freed" using so by (simp add: d so_freed)
  with lp show "cell_at s' q = Some Freed" by (auto simp: c live_cell)
qed

lemma so_alloc:
  assumes so: "single_owner s"
    and o: "objs s' = objs s @ [Some (Suc (length (mem s)))]" and d: "deleted s' = deleted s"
    and m: "mem s' = mem s @ [Live v]"
  shows "single_owner s'"
proof (rule single_ownerI)
  note c = cell_at_append[OF m] and mt = m_t_of_append[OF o]
  fix w0 p0 assume a: "m_t_of w0 s' = Inr p0" "p0 \<noteq> 0"
  show "live s' p0"
  proof (cases "w0 = length (objs s)")
    case True
    with a show ?thesis by (simp add: mt live_cell c)
  next
    case False
    with a so have l: "live s p0" by (simp add: mt so_live)
    with live_bound[OF l] show ?thesis by (simp add: live_cell c)
  qed
next
  note mt = m_t_of_append[OF o]
  have fresh: "m_t_of w s \<noteq> Inr (Suc (length (mem s)))" for w
  proof
    assume "m_t_of w s = Inr (Suc (length (mem s)))"
    with so have "live s (Suc (length (mem s)))" by (simp add: so_live)
    from live_bound[OF this] show False by simp
  qed
  fix w1 w2 p0 assume a: "m_t_of w1 s' = Inr p0" "m_t_of w2 s' = Inr p0" "p0 \<noteq> 0"
  show "w1 = w2"
  proof (cases "w1 = length (objs s)")
    case w1: True
    with a(1) have p0: "p0 = Suc (length (mem s))" by (simp add: mt)
    show ?thesis
    proof (cases "w2 = length (objs s)")
      case True
      with w1 show ?thesis by simp
    next
      case False
      with a(2) p0 fresh[of w2] show ?thesis by (simp add: mt)
    qed
  next
    case w1: False
    with a(1) have m1: "m_t_of w1 s = Inr p0" by (simp add: mt)
    show ?thesis
    proof (cases "w2 = length (objs s)")
      case True
      with a(2) have "p0 = Suc (length (mem s))" by (simp add: mt)
      with m1 fresh[of w1] show ?thesis by simp
    next
      case False
      with a(2) have "m_t_of w2 s = Inr p0" by (simp add: mt)
      with m1 a(3) so show ?thesis by (blast intro: so_unique)
    qed
  qed
next
  show "distinct (deleted s')" using so by (simp add: d so_distinct)
next
  note c = cell_at_append[OF m]
  fix q assume "q \<in> set (deleted s')"
  then have f: "cell_at s q = Some Freed" using so by (simp add: d so_freed)
  with cell_at_bound[OF f] show "cell_at s' q = Some Freed" by (simp add: c)
qed

lemma m_t_of_upd [simp]:
  "m_t_of w (s\<lparr>mem := m\<rparr>) = m_t_of w s"
  "m_t_of w (s\<lparr>deleted := d\<rparr>) = m_t_of w s"
  by (simp_all add: m_t_of_def)

lemma so_release:
  assumes so: "single_owner s"
    and rel: "(p = 0 \<and> mem s' = mem s \<and> deleted s' = deleted s) \<or>
              (live s p \<and> mem s' = (mem s)[p - 1 := Freed] \<and> deleted s' = deleted s @ [p])"
    and sub: "\<And>w q. m_t_of w s' = Inr q \<Longrightarrow> q \<noteq> 0 \<Longrightarrow> q \<noteq> p \<and> (\<exists>w'. m_t_of w' s = Inr q)"
    and uni: "\<And>w1 w2 q. m_t_of w1 s' = Inr q \<Longrightarrow> m_t_of w2 s' = Inr q \<Longrightarrow> q \<noteq> 0 \<Longrightarrow> w1 = w2"
  shows "single_owner s'"
proof -
  have c: "cell_at s' q = (if q = p \<and> p \<noteq> 0 then Some Freed else cell_at s q)" for q
  proof (cases "p = 0")
    case True
    with rel live_bound[of s p] have "mem s' = mem s" by blast
    with True show ?thesis by (simp add: cell_at_cong[of s' s])
  next
    case False
    with rel have l: "live s p" and m: "mem s' = (mem s)[p - 1 := Freed]" by blast+
    from cell_at_update[OF m] live_bound[OF l] False show ?thesis by simp
  qed
  have d: "set (deleted s') \<subseteq> insert p (set (deleted s))"
    using rel by auto
  show ?thesis
  proof (rule single_ownerI)
    fix w0 p0 assume a: "m_t_of w0 s' = Inr p0" "p0 \<noteq> 0"
    from sub[OF a] obtain w' where "p0 \<noteq> p" "m_t_of w' s = Inr p0" by blast
    with so a(2) have "p0 \<noteq> p" "live s p0" by (blast intro: so_live)+
    then show "live s' p0" by (simp add: live_cell c)
  next
    fix w1 w2 q assume "m_t_of w1 s' = Inr q" "m_t_of w2 s' = Inr q" "q \<noteq> 0"
    then show "w1 = w2" by (rule uni)
  next
    show "distinct (deleted s')"
    proof (cases "p = 0")
      case True
      with rel live_bound[of s p] have "deleted s' = deleted s" by blast
      with so show ?thesis by (simp add: so_distinct)
    next
      case False
      with rel have l: "live s p" and e: "deleted s' = deleted s @ [p]" by blast+
      from so l have "p \<notin> set (deleted s)" by (rule live_not_deleted)
      with so e show ?thesis by (simp add: so_distinct)
    qed
  next
    fix q assume q: "q \<in> set (deleted s')"
    show "cell_at s' q = Some Freed"
    proof (cases "q = p \<and> p \<noteq> 0")
      case True
      then show ?thesis by (simp add: c)
    next
      case False
      have "q \<in> set (deleted s)"
      proof (cases "p = 0")
        case True
        with rel live_bound[of s p] have "deleted s' = deleted s" by blast
        with q show ?thesis by simp
      next
        case p: False
        with rel have "deleted s' = deleted s @ [p]" by blast
        with q False p show ?thesis by auto
      qed
      with so have "cell_at s q = Some Freed" by (rule so_freed)
      with False show ?thesis by (simp add: c)
    qed
  qed
qed

text \<open>Effect of each constructor, assignment and the destructor on the three fields.\<close>

lemma new_T_simps:
  "fst (new_T v s) = Suc (length (mem s))"
  "objs (snd (new_T v s)) = objs s"
  "mem (snd (new_T v s)) = mem s @ [Live v]"
  "deleted (snd (new_T v s)) = deleted s"
  by (simp_all add: new_T_def)

lemma new_object_simps:
  "fst (new_object p s) = length (objs s)"
  "objs (snd (new_object p s)) = objs s @ [Some p]"
  "mem (snd (new_object p s)) = mem s"
  "deleted (snd (new_object p s)) = deleted s"
  by (simp_all add: new_object_def)

lemma construct_simps:
  "fst (construct v s) = length (objs s)"
  "objs (snd (construct v s)) = objs s @ [Some (Suc (length (mem s)))]"
  "mem (snd (construct v s)) = mem s @ [Live v]"
  "deleted (snd (construct v s)) = deleted s"
  by (simp_all add: construct_def new_object_simps new_T_simps)

lemma ctor_default_eq: "ctor_default (Some d) s = Inr (construct d s)"
  by (simp add: ctor_default_def construct_def split_beta)

lemma ctor_default_None: "ctor_default None s = Inl IllFormed"
  by (simp add: ctor_default_def)

lemma ctor_from_eq: "ctor_from (Some f) u s = Inr (construct (f u) s)"
  by (simp add: ctor_from_def construct_def split_beta)

lemma ctor_from_None: "ctor_from None u s = Inl IllFormed"
  by (simp add: ctor_from_def)

lemma ctor_copy_eq:
  "m_t_of rhs s = Inr p \<Longrightarrow> cell_at s p = Some (Live v) \<Longrightarrow> ctor_copy rhs s = Inr (construct v s)"
  by (simp add: ctor_copy_def construct_def split_beta load_eq_Inr[THEN iffD2])

lemma ctor_copy_alt:
  "ctor_copy rhs s =
     and_then (get ConstLvalue rhs s) (\<lambda>r. and_then (load r s) (\<lambda>v. Inr (construct v s)))"
  by (simp add: ctor_copy_def construct_def split_beta)

lemma ctor_copy_Inr:
  assumes "ctor_copy rhs s = Inr r"
  obtains p v where "m_t_of rhs s = Inr p" "cell_at s p = Some (Live v)" "r = construct v s"
proof -
  from assms obtain p v where 1: "get ConstLvalue rhs s = Inr p" and 2: "load p s = Inr v"
    and 3: "r = construct v s"
    unfolding ctor_copy_alt and_then_eq_Inr by auto
  from 1 have a: "m_t_of rhs s = Inr p" by (auto simp: and_then_eq_Inr)
  from 2 have b: "cell_at s p = Some (Live v)" by (simp add: load_eq_Inr)
  from a b 3 show ?thesis by (rule that)
qed

lemma ctor_move_eq:
  "m_t_of rhs s = Inr p \<Longrightarrow>
   ctor_move rhs s = Inr (length (objs s), s\<lparr>objs := (objs s @ [Some p])[rhs := Some 0]\<rparr>)"
  by (simp add: ctor_move_def new_object_def set_m_t_def m_t_of_def nth_append
      split: if_splits option.splits)

lemma ctor_move_Inl: "m_t_of rhs s = Inl e \<Longrightarrow> ctor_move rhs s = Inl e"
  by (simp add: ctor_move_def)

lemma so_ctor_move:
  assumes so: "single_owner s" and r: "m_t_of rhs s = Inr p"
    and o: "objs s' = (objs s @ [Some p])[rhs := Some 0]"
    and m: "mem s' = mem s" and d: "deleted s' = deleted s"
  shows "single_owner s'"
proof -
  from r have b: "rhs < length (objs s)" by (rule m_t_of_bound)
  have mt: "m_t_of w s' = (if w = rhs then Inr 0 else if w = length (objs s) then Inr p
                          else m_t_of w s)" for w
    using b by (simp add: m_t_of_def o nth_list_update nth_append)
  show ?thesis
  proof (rule so_release[OF so, of 0])
    show "(0 = 0 \<and> mem s' = mem s \<and> deleted s' = deleted s) \<or>
          (live s 0 \<and> mem s' = (mem s)[0 - 1 := Freed] \<and> deleted s' = deleted s @ [0])"
      using m d by simp
  next
    fix w q assume "m_t_of w s' = Inr q" "q \<noteq> 0"
    then show "q \<noteq> 0 \<and> (\<exists>w'. m_t_of w' s = Inr q)"
      using r by (auto simp: mt split: if_splits)
  next
    fix w1 w2 q assume a: "m_t_of w1 s' = Inr q" "m_t_of w2 s' = Inr q" "q \<noteq> 0"
    then have "w1 \<noteq> rhs" "w2 \<noteq> rhs" by (auto simp: mt)
    with a r so_unique[OF so, of w1 q w2] so_unique[OF so, of w1 q rhs]
      so_unique[OF so, of w2 q rhs]
    show "w1 = w2" by (auto simp: mt split: if_splits)
  qed
qed

lemma dtor_Inr_cases:
  assumes "dtor w s = Inr s'"
  obtains p where "m_t_of w s = Inr p" "objs s' = (objs s)[w := None]"
    "(p = 0 \<and> mem s' = mem s \<and> deleted s' = deleted s) \<or>
     (live s p \<and> mem s' = (mem s)[p - 1 := Freed] \<and> deleted s' = deleted s @ [p])"
proof -
  from assms obtain s1 where 1: "destroy w s = Inr s1" and 2: "s' = end_object w s1"
    unfolding dtor_def and_then_eq_Inr by auto
  from 1 show ?thesis
  proof (cases rule: destroy_Inr_cases)
    case 1
    with 2 have "objs s' = (objs s)[w := None]" "mem s' = mem s" "deleted s' = deleted s"
      by (simp_all add: end_object_def)
    with 1(1) show ?thesis by (intro that[of 0]) simp_all
  next
    case (2 p)
    with \<open>s' = end_object w s1\<close> have "objs s' = (objs s)[w := None]"
      "mem s' = (mem s)[p - 1 := Freed]" "deleted s' = deleted s @ [p]"
      by (simp_all add: end_object_def)
    with 2(1,2) show ?thesis by (intro that[of p]) simp_all
  qed
qed

lemma so_dtor:
  assumes so: "single_owner s" and op: "dtor w s = Inr s'"
  shows "single_owner s'"
proof -
  from op obtain p where r: "m_t_of w s = Inr p" and o: "objs s' = (objs s)[w := None]"
    and rel: "(p = 0 \<and> mem s' = mem s \<and> deleted s' = deleted s) \<or>
     (live s p \<and> mem s' = (mem s)[p - 1 := Freed] \<and> deleted s' = deleted s @ [p])"
    by (rule dtor_Inr_cases)
  from r have b: "w < length (objs s)" by (rule m_t_of_bound)
  have mt: "m_t_of w' s' = (if w' = w then Inl NoObject else m_t_of w' s)" for w'
    using m_t_of_update[OF o b] by simp
  show ?thesis
  proof (rule so_release[OF so rel])
    fix w' q assume a: "m_t_of w' s' = Inr q" "q \<noteq> 0"
    then have "w' \<noteq> w" "m_t_of w' s = Inr q" by (auto simp: mt split: if_splits)
    with r a(2) so_unique[OF so, of w' q w] show "q \<noteq> p \<and> (\<exists>w'. m_t_of w' s = Inr q)"
      by auto
  next
    fix w1 w2 q assume a: "m_t_of w1 s' = Inr q" "m_t_of w2 s' = Inr q" "q \<noteq> 0"
    then have "m_t_of w1 s = Inr q" "m_t_of w2 s = Inr q" by (auto simp: mt split: if_splits)
    with so a(3) show "w1 = w2" by (blast intro: so_unique)
  qed
qed

lemma set_m_t_eq:
  "m_t_of w s = Inr q \<Longrightarrow> set_m_t w p s = Inr (s\<lparr>objs := (objs s)[w := Some p]\<rparr>)"
  by (simp add: set_m_t_def)

lemma set_m_t_Inl: "m_t_of w s = Inl e \<Longrightarrow> set_m_t w p s = Inl e"
  by (simp add: set_m_t_def)

lemma steal_eq:
  assumes t: "m_t_of this s1 = Inr p" and r: "m_t_of rhs s1 = Inr q"
  shows "and_then (m_t_of rhs s1) (\<lambda>p. and_then (set_m_t this p s1) (\<lambda>s2. set_m_t rhs 0 s2))
         = Inr (s1\<lparr>objs := (objs s1)[this := Some q, rhs := Some 0]\<rparr>)"
proof -
  let ?s2 = "s1\<lparr>objs := (objs s1)[this := Some q]\<rparr>"
  from t have b: "this < length (objs s1)" by (rule m_t_of_bound)
  have "m_t_of rhs ?s2 = Inr q"
    using r[unfolded m_t_of_eq_Inr] b by (simp add: m_t_of_eq_Inr nth_list_update)
  then have "set_m_t rhs 0 ?s2 = Inr (?s2\<lparr>objs := (objs ?s2)[rhs := Some 0]\<rparr>)"
    by (simp add: set_m_t_eq)
  with t r show ?thesis by (simp add: set_m_t_eq)
qed

lemma assign_move_empty:
  "m_t_of this s = Inr 0 \<Longrightarrow> m_t_of rhs s = Inr q \<Longrightarrow>
   assign_move this rhs s = Inr (s\<lparr>objs := (objs s)[this := Some q, rhs := Some 0]\<rparr>)"
  using steal_eq[of this s 0 rhs q] unfolding assign_move_def by (simp add: destroy_empty)

lemma assign_move_owned:
  assumes t: "m_t_of this s = Inr p" and l: "live s p" and r: "m_t_of rhs s = Inr q"
  shows "assign_move this rhs s =
     Inr (s\<lparr>mem := (mem s)[p - 1 := Freed], deleted := deleted s @ [p],
             objs := (objs s)[this := Some q, rhs := Some 0]\<rparr>)"
proof -
  let ?s1 = "s\<lparr>mem := (mem s)[p - 1 := Freed], deleted := deleted s @ [p]\<rparr>"
  have "m_t_of this ?s1 = Inr p" "m_t_of rhs ?s1 = Inr q"
    using t r by simp_all
  from steal_eq[OF this] destroy_owned[OF t l] show ?thesis
    unfolding assign_move_def by simp
qed

lemma assign_move_Inr_cases:
  assumes "assign_move this rhs s = Inr s'"
  obtains p q where "m_t_of this s = Inr p" "m_t_of rhs s = Inr q"
    "objs s' = (objs s)[this := Some q, rhs := Some 0]"
    "(p = 0 \<and> mem s' = mem s \<and> deleted s' = deleted s) \<or>
     (live s p \<and> mem s' = (mem s)[p - 1 := Freed] \<and> deleted s' = deleted s @ [p])"
proof -
  from assms obtain s1 where 1: "destroy this s = Inr s1"
    and 2: "and_then (m_t_of rhs s1) (\<lambda>p. and_then (set_m_t this p s1) (\<lambda>s2. set_m_t rhs 0 s2))
            = Inr s'"
    unfolding assign_move_def and_then_eq_Inr[of "destroy this s"] by auto
  from 2 obtain q where q: "m_t_of rhs s1 = Inr q"
    by (cases "m_t_of rhs s1") simp_all
  from 1 show ?thesis
  proof (cases rule: destroy_Inr_cases)
    case 1
    with q have r: "m_t_of rhs s = Inr q" by simp
    from assms assign_move_empty[OF 1(1) r]
    have "s' = s\<lparr>objs := (objs s)[this := Some q, rhs := Some 0]\<rparr>" by simp
    then have "objs s' = (objs s)[this := Some q, rhs := Some 0]" "mem s' = mem s"
      "deleted s' = deleted s" by simp_all
    with 1(1) r show ?thesis by (intro that[of 0 q]) simp_all
  next
    case (2 p)
    with q have r: "m_t_of rhs s = Inr q" by simp
    from assms assign_move_owned[OF 2(1,2) r]
    have "s' = s\<lparr>mem := (mem s)[p - 1 := Freed], deleted := deleted s @ [p],
             objs := (objs s)[this := Some q, rhs := Some 0]\<rparr>" by simp
    then have "objs s' = (objs s)[this := Some q, rhs := Some 0]"
      "mem s' = (mem s)[p - 1 := Freed]" "deleted s' = deleted s @ [p]" by simp_all
    with 2(1,2) r show ?thesis by (intro that[of p q]) simp_all
  qed
qed

lemma so_assign_move:
  assumes so: "single_owner s" and op: "assign_move this rhs s = Inr s'"
  shows "single_owner s'"
proof -
  from op obtain p q where t: "m_t_of this s = Inr p" and r: "m_t_of rhs s = Inr q"
    and o: "objs s' = (objs s)[this := Some q, rhs := Some 0]"
    and rel: "(p = 0 \<and> mem s' = mem s \<and> deleted s' = deleted s) \<or>
     (live s p \<and> mem s' = (mem s)[p - 1 := Freed] \<and> deleted s' = deleted s @ [p])"
    by (rule assign_move_Inr_cases)
  from t r have b: "this < length (objs s)" "rhs < length (objs s)"
    by (simp_all add: m_t_of_bound)
  have mt: "m_t_of w s' = (if w = rhs then Inr 0 else if w = this then Inr q else m_t_of w s)"
    for w
    using b by (simp add: m_t_of_def o nth_list_update)
  show ?thesis
  proof (rule so_release[OF so rel])
    fix w q' assume a: "m_t_of w s' = Inr q'" "q' \<noteq> 0"
    then have w: "w \<noteq> rhs" by (auto simp: mt)
    show "q' \<noteq> p \<and> (\<exists>w'. m_t_of w' s = Inr q')"
    proof (cases "w = this")
      case True
      with a w have "q' = q" "this \<noteq> rhs" by (auto simp: mt)
      with t r a(2) so_unique[OF so, of this q rhs] show ?thesis by auto
    next
      case False
      with a w have "m_t_of w s = Inr q'" by (simp add: mt)
      with False t a(2) so_unique[OF so, of w q' this] show ?thesis by auto
    qed
  next
    fix w1 w2 q' assume a: "m_t_of w1 s' = Inr q'" "m_t_of w2 s' = Inr q'" "q' \<noteq> 0"
    then have w: "w1 \<noteq> rhs" "w2 \<noteq> rhs" by (auto simp: mt)
    with a r so_unique[OF so, of w1 q' w2] so_unique[OF so, of w1 q' rhs]
      so_unique[OF so, of w2 q' rhs]
    show "w1 = w2" by (auto simp: mt split: if_splits)
  qed
qed

lemma so_assign:
  assumes so: "single_owner s" and op: "assign w v s = Inr s'"
  shows "single_owner s'"
proof -
  from op obtain p where p: "m_t_of w s = Inr p" "live s p"
    and s': "s' = s\<lparr>mem := (mem s)[p - 1 := Live v]\<rparr>"
    unfolding assign_eq_Inr by blast
  from s' have "objs s' = objs s" "deleted s' = deleted s" "mem s' = (mem s)[p - 1 := Live v]"
    by simp_all
  with so p(2) show ?thesis by (rule so_store)
qed

lemma so_assign_copy:
  assumes so: "single_owner s" and op: "assign_copy this rhs s = Inr s'"
  shows "single_owner s'"
proof -
  from op obtain v where "assign this v s = Inr s'"
    unfolding assign_copy_def and_then_eq_Inr by auto
  with so show ?thesis by (rule so_assign)
qed

lemma so_construct: "single_owner s \<Longrightarrow> single_owner (snd (construct v s))"
  by (rule so_alloc) (simp_all add: construct_simps)

lemma two_wrappers_reachable:
  "and_then (ctor_from (Some id) 10 empty_state) (\<lambda>(w, s). ctor_from (Some id) 20 s)
   = Inr (1, two_wrappers)"
  by (simp add: ctor_from_def new_T_def new_object_def empty_state_def two_wrappers_def)

lemma moved_from_reachable:
  "and_then (ctor_from (Some id) 10 empty_state) (\<lambda>(w, s). ctor_move w s)
   = Inr (1, moved_from)"
  by (simp add: ctor_from_def ctor_move_def new_T_def new_object_def empty_state_def
      moved_from_def set_m_t_def m_t_of_def)

lemma assign_owned:
  "m_t_of this s = Inr p \<Longrightarrow> live s p \<Longrightarrow>
   assign this v s = Inr (s\<lparr>mem := (mem s)[p - 1 := Live v]\<rparr>)"
  using live_bound[of s p] by (simp add: assign_def store_cases)

lemma assign_empty: "m_t_of this s = Inr 0 \<Longrightarrow> assign this v s = Inl NullDeref"
  by (simp add: assign_def store_cases)

lemma get_owned: "m_t_of w s = Inr p \<Longrightarrow> live s p \<Longrightarrow> get q w s = Inr p"
  using get_eq_Inr[of q w s p] by blast





lemma so_ctor_move':
  assumes so: "single_owner s" and op: "ctor_move rhs s = Inr r"
  shows "single_owner (snd r)"
proof (cases "m_t_of rhs s")
  case (Inl e)
  with op show ?thesis by (simp add: ctor_move_Inl)
next
  case (Inr p)
  with op have "r = (length (objs s), s\<lparr>objs := (objs s @ [Some p])[rhs := Some 0]\<rparr>)"
    by (simp add: ctor_move_eq)
  then have "objs (snd r) = (objs s @ [Some p])[rhs := Some 0]" "mem (snd r) = mem s"
    "deleted (snd r) = deleted s" by simp_all
  with so Inr show ?thesis by (rule so_ctor_move)
qed

lemma so_run:
  assumes so: "single_owner s" and op: "run x s = Inr s'"
  shows "single_owner s'"
proof (cases x)
  case (Construct d)
  with op obtain v where "d = Some v" "s' = snd (construct v s)"
    by (cases d) (auto simp: ctor_default_None ctor_default_eq)
  with so show ?thesis by (simp add: so_construct)
next
  case (Construct_from c u)
  with op obtain f where "c = Some f" "s' = snd (construct (f u) s)"
    by (cases c) (auto simp: ctor_from_None ctor_from_eq)
  with so show ?thesis by (simp add: so_construct)
next
  case (Copy_construct rhs)
  with op obtain r where r: "ctor_copy rhs s = Inr r" "s' = snd r"
    by (auto simp: and_then_eq_Inr)
  from r(1) obtain v where "r = construct v s" by (rule ctor_copy_Inr)
  with r(2) so show ?thesis by (simp add: so_construct)
next
  case (Move_construct rhs)
  with op obtain r where r: "ctor_move rhs s = Inr r" "s' = snd r"
    by (auto simp: and_then_eq_Inr)
  with so show ?thesis by (simp add: so_ctor_move')
next
  case (Copy_assign this rhs)
  with so op show ?thesis by (simp add: so_assign_copy)
next
  case (Move_assign this rhs)
  with so op show ?thesis by (simp add: so_assign_move)
next
  case (Assign_const_ref this t)
  with op have "assign this t s = Inr s'" by (simp add: assign_const_ref_def)
  with so show ?thesis by (rule so_assign)
next
  case (Assign_rvalue this t)
  with op have "assign this t s = Inr s'" by (simp add: assign_rvalue_def)
  with so show ?thesis by (rule so_assign)
next
  case (Get q this)
  with op have "s' = s" by (auto simp: and_then_eq_Inr)
  with so show ?thesis by simp
next
  case (Destruct this)
  with so op show ?thesis by (simp add: so_dtor)
qed

lemma so_run_all: "single_owner s \<Longrightarrow> run_all xs s = Inr s' \<Longrightarrow> single_owner s'"
proof (induction xs arbitrary: s)
  case Nil
  then show ?case by simp
next
  case (Cons x xs)
  from Cons.prems(2) obtain s1 where "run x s = Inr s1" "run_all xs s1 = Inr s'"
    by (auto simp: and_then_eq_Inr)
  with Cons.prems(1) Cons.IH[of s1] show ?case by (blast intro: so_run)
qed

lemma Inr_exI: "f = Inr s0 \<Longrightarrow> P s0 \<Longrightarrow> \<exists>s'. f = Inr s' \<and> P s'"
  by blast

lemma load_cell: "cell_at s p = Some (Live v) \<Longrightarrow> load p s = Inr v"
  by (simp add: load_eq_Inr)


subsection \<open>Assignment to a wrapper that owns a value\<close>



lemma two_wrappers_facts:
  "m_t_of 0 two_wrappers = Inr 1" "live two_wrappers 1"
  "m_t_of 1 two_wrappers = Inr 2" "load 2 two_wrappers = Inr 20"
  by (simp_all add: two_wrappers_def m_t_of_def live_def cell_at_def load_def)


subsection \<open>A moved-from wrapper\<close>

text \<open>
  Claim C4, evaluated on the wrapper that a move constructor has just emptied
  (\<open>moved_from\<close>, wrapper \<open>0\<close>). Its pointer is null; the destructor succeeds and frees
  nothing, and move assignment to it succeeds; but assignment from a bare value (both overloads)
  and copy assignment from another wrapper go through \<open>assign\<close>, which dereferences the null
  pointer.
\<close>

theorem C4_reassign_moved_from_faults:
  "m_t_of 0 moved_from = Inr 0 \<and>
   dtor 0 moved_from = Inr (moved_from\<lparr>objs := [None, Some 1]\<rparr>) \<and>
   assign_move 0 1 moved_from = Inr (moved_from\<lparr>objs := [Some 1, Some 0]\<rparr>) \<and>
   assign_const_ref 0 7 moved_from = Inl NullDeref \<and>
   assign_rvalue 0 7 moved_from = Inl NullDeref \<and>
   assign_copy 0 1 moved_from = Inl NullDeref"
  by (simp add: moved_from_def dtor_def destroy_def end_object_def assign_move_def set_m_t_def
      assign_const_ref_def assign_rvalue_def assign_copy_def assign_def store_def
      m_t_of_def cell_at_def load_def)

lemma construct_facts:
  assumes r: "(this, s') = construct v s"
  shows "this = length (objs s)" "objs s' = objs s @ [Some (Suc (length (mem s)))]"
    "mem s' = mem s @ [Live v]" "deleted s' = deleted s"
    "m_t_of this s' = Inr (Suc (length (mem s)))"
    "cell_at s' (Suc (length (mem s))) = Some (Live v)"
    "cell_at s (Suc (length (mem s))) = None"
    "\<And>w. w < length (objs s) \<Longrightarrow> m_t_of w s' = m_t_of w s"
    "\<And>p c. cell_at s p = Some c \<Longrightarrow> cell_at s' p = Some c"
proof -
  from r[symmetric] have f: "fst (construct v s) = this" "snd (construct v s) = s'"
    by simp_all
  from f[symmetric] show 1: "this = length (objs s)"
    and 2: "objs s' = objs s @ [Some (Suc (length (mem s)))]"
    and 3: "mem s' = mem s @ [Live v]" and "deleted s' = deleted s"
    by (simp_all add: construct_simps)
  from 1 2 show "m_t_of this s' = Inr (Suc (length (mem s)))"
    by (simp add: m_t_of_append)
  from 3 show "cell_at s' (Suc (length (mem s))) = Some (Live v)"
    by (simp add: cell_at_append)
  show "cell_at s (Suc (length (mem s))) = None" by (simp add: cell_at_def)
  show "\<And>w. w < length (objs s) \<Longrightarrow> m_t_of w s' = m_t_of w s"
    using 2 by (simp add: m_t_of_append)
  show "\<And>p c. cell_at s p = Some c \<Longrightarrow> cell_at s' p = Some c"
    using 3 cell_at_bound by (fastforce simp: cell_at_append)
qed

lemma load_after_assign:
  assumes t: "m_t_of w s = Inr p" and c: "cell_at s p = Some (Live old)"
    and o: "cell_at s q = Some (Live v)" and ne: "q \<noteq> p"
  shows "and_then (assign_const_ref w x s) (load q) = Inr v"
proof -
  let ?s' = "s\<lparr>mem := (mem s)[p - 1 := Live x]\<rparr>"
  from c have l: "live s p" by (simp add: live_cell)
  have m: "mem ?s' = (mem s)[p - 1 := Live x]" by simp
  from cell_at_update[OF m] live_bound[OF l] o ne have "cell_at ?s' q = Some (Live v)"
    by simp
  then have "load q ?s' = Inr v" by (rule load_cell)
  then show ?thesis unfolding assign_const_ref_def assign_owned[OF t l] by simp
qed

subsection \<open>Copy and move construction\<close>

text \<open>
  Claim C5. Let \<open>rhs\<close> own the value \<open>v\<close> at address \<open>p\<close>. Copy construction succeeds and
  yields a new wrapper whose pointer \<open>p'\<close> is an address that was not in use before, different
  from \<open>p\<close>, holding \<open>v\<close>; the source still has pointer \<open>p\<close> and value \<open>v\<close>; assigning to either
  wrapper afterwards leaves the value of the other unchanged. Move construction succeeds and
  yields a new wrapper with pointer \<open>p\<close>, hence the value \<open>v\<close>; the source's pointer is null;
  memory is unchanged.
\<close>

theorem C5_copy_and_move:
  assumes r: "m_t_of rhs s = Inr p" and v: "load p s = Inr v"
  shows "(\<exists>this s' p'. ctor_copy rhs s = Inr (this, s') \<and> this \<noteq> rhs
            \<and> m_t_of this s' = Inr p' \<and> p' \<noteq> p \<and> cell_at s p' = None
            \<and> load p' s' = Inr v
            \<and> m_t_of rhs s' = Inr p \<and> load p s' = Inr v
            \<and> (\<forall>x. and_then (assign_const_ref this x s') (load p) = Inr v)
            \<and> (\<forall>x. and_then (assign_const_ref rhs x s') (load p') = Inr v))
       \<and> (\<exists>this s'. ctor_move rhs s = Inr (this, s') \<and> this \<noteq> rhs
            \<and> m_t_of this s' = Inr p \<and> load p s' = Inr v
            \<and> m_t_of rhs s' = Inr 0 \<and> mem s' = mem s)"
proof
  from v have c: "cell_at s p = Some (Live v)" by (simp add: load_eq_Inr)
  from r have b: "rhs < length (objs s)" by (rule m_t_of_bound)
  obtain this s' where e: "(this, s') = construct v s" by (metis surj_pair)
  note f = construct_facts[OF e]
  let ?p' = "Suc (length (mem s))"
  from cell_at_bound[OF c] have ne: "?p' \<noteq> p" by simp
  have 1: "ctor_copy rhs s = Inr (this, s')" using ctor_copy_eq[OF r c] e by simp
  have 2: "this \<noteq> rhs" using f(1) b by simp
  have 3: "m_t_of rhs s' = Inr p" using f(8)[OF b] r by simp
  have 4: "cell_at s' p = Some (Live v)" using f(9)[OF c] .
  have 5: "\<forall>x. and_then (assign_const_ref this x s') (load p) = Inr v"
    using load_after_assign[OF f(5) f(6) 4] ne by blast
  have 6: "\<forall>x. and_then (assign_const_ref rhs x s') (load ?p') = Inr v"
    using load_after_assign[OF 3 4 f(6) ne] by blast
  from 1 2 f(5) ne f(7) load_cell[OF f(6)] 3 load_cell[OF 4] 5 6
  show "\<exists>this s' p'. ctor_copy rhs s = Inr (this, s') \<and> this \<noteq> rhs
            \<and> m_t_of this s' = Inr p' \<and> p' \<noteq> p \<and> cell_at s p' = None
            \<and> load p' s' = Inr v
            \<and> m_t_of rhs s' = Inr p \<and> load p s' = Inr v
            \<and> (\<forall>x. and_then (assign_const_ref this x s') (load p) = Inr v)
            \<and> (\<forall>x. and_then (assign_const_ref rhs x s') (load p') = Inr v)"
    by (intro exI[of _ this] exI[of _ s'] exI[of _ ?p']) (intro conjI)
next
  from r have b: "rhs < length (objs s)" by (rule m_t_of_bound)
  let ?w = "length (objs s)"
  let ?s' = "s\<lparr>objs := (objs s @ [Some p])[rhs := Some 0]\<rparr>"
  have 1: "ctor_move rhs s = Inr (?w, ?s')" by (rule ctor_move_eq[OF r])
  have 2: "?w \<noteq> rhs" using b by simp
  have 3: "m_t_of ?w ?s' = Inr p" "m_t_of rhs ?s' = Inr 0"
    using b by (simp_all add: m_t_of_def nth_list_update nth_append)
  have 4: "mem ?s' = mem s" by simp
  then have "load p ?s' = load p s" by (simp add: load_def cell_at_def)
  with v have 5: "load p ?s' = Inr v" by simp
  from 1 2 3 5 4
  show "\<exists>this s'. ctor_move rhs s = Inr (this, s') \<and> this \<noteq> rhs
            \<and> m_t_of this s' = Inr p \<and> load p s' = Inr v
            \<and> m_t_of rhs s' = Inr 0 \<and> mem s' = mem s"
    by (intro exI[of _ ?w] exI[of _ ?s']) (intro conjI)
qed

lemma two_wrappers_load: "load 1 two_wrappers = Inr 10"
  by (simp add: two_wrappers_def cell_at_def load_def)

theorem C5_copy_and_move_witness:
  "m_t_of 0 two_wrappers = Inr 1 \<and> load 1 two_wrappers = Inr 10 \<and>
   (\<exists>this s' p'. ctor_copy 0 two_wrappers = Inr (this, s') \<and> m_t_of this s' = Inr p' \<and> p' \<noteq> 1
        \<and> load p' s' = Inr 10 \<and> load 1 s' = Inr 10) \<and>
   (\<exists>this s'. ctor_move 0 two_wrappers = Inr (this, s') \<and> m_t_of this s' = Inr 1
        \<and> m_t_of 0 s' = Inr 0)"
proof -
  note h = two_wrappers_facts(1) two_wrappers_load
  from C5_copy_and_move[OF h] h show ?thesis by blast
qed

lemma constructed_get:
  assumes e: "(this, s') = construct v s"
  shows "m_t_of this s' = Inr (Suc (length (mem s))) \<and> load (Suc (length (mem s))) s' = Inr v
         \<and> (\<forall>q. get q this s' = Inr (Suc (length (mem s))))"
proof -
  note f = construct_facts[OF e]
  from f(6) have "live s' (Suc (length (mem s)))" by (simp add: live_cell)
  with f(5) have "\<forall>q. get q this s' = Inr (Suc (length (mem s)))" by (simp add: get_owned)
  with f(5) load_cell[OF f(6)] show ?thesis by blast
qed

subsection \<open>Construction and \<open>get\<close>\<close>

text \<open>
  Claim C6. The default constructor is ill-formed when \<open>T\<close> has no default constructor, and
  otherwise yields a wrapper holding \<open>T()\<close>. The converting constructor is not available when
  \<open>U\<close> does not convert to \<open>T\<close>, and otherwise yields a wrapper holding \<open>T(u)\<close>. On the
  wrapper just made, \<open>get\<close> in each of its three qualifications returns the same reference, to
  the one owned object, whose value is the value constructed.
\<close>

theorem C6_construct_and_get:
  "ctor_default None s = Inl IllFormed
   \<and> (\<exists>this s' p. ctor_default (Some d) s = Inr (this, s') \<and> m_t_of this s' = Inr p
          \<and> load p s' = Inr d \<and> (\<forall>q. get q this s' = Inr p))
   \<and> ctor_from None u s = Inl IllFormed
   \<and> (\<exists>this s' p. ctor_from (Some f) u s = Inr (this, s') \<and> m_t_of this s' = Inr p
          \<and> load p s' = Inr (f u) \<and> (\<forall>q. get q this s' = Inr p))"
proof (intro conjI)
  show "ctor_default None s = Inl IllFormed" by (rule ctor_default_None)
  show "ctor_from None u s = Inl IllFormed" by (rule ctor_from_None)
  obtain this s' where e: "(this, s') = construct d s" by (metis surj_pair)
  then have "ctor_default (Some d) s = Inr (this, s')" by (simp add: ctor_default_eq)
  with constructed_get[OF e]
  show "\<exists>this s' p. ctor_default (Some d) s = Inr (this, s') \<and> m_t_of this s' = Inr p
          \<and> load p s' = Inr d \<and> (\<forall>q. get q this s' = Inr p)" by blast
  obtain this s' where e: "(this, s') = construct (f u) s" by (metis surj_pair)
  then have "ctor_from (Some f) u s = Inr (this, s')" by (simp add: ctor_from_eq)
  with constructed_get[OF e]
  show "\<exists>this s' p. ctor_from (Some f) u s = Inr (this, s') \<and> m_t_of this s' = Inr p
          \<and> load p s' = Inr (f u) \<and> (\<forall>q. get q this s' = Inr p)" by blast
qed


lemma dtor_owned:
  assumes t: "m_t_of w s = Inr p" and ok: "p = 0 \<or> live s p"
  shows "\<exists>s'. dtor w s = Inr s' \<and> (objs s' = (objs s)[w := None]
           \<and> (if p = 0 then deleted s' = deleted s \<and> mem s' = mem s
               else deleted s' = deleted s @ [p] \<and> mem s' = (mem s)[p - 1 := Freed]))"
proof (cases "p = 0")
  case True
  define s' where "s' = s\<lparr>objs := (objs s)[w := None]\<rparr>"
  from True t have 1: "dtor w s = Inr s'"
    by (simp add: dtor_def destroy_empty end_object_def s'_def)
  have 2: "objs s' = (objs s)[w := None]" "deleted s' = deleted s" "mem s' = mem s"
    by (simp_all add: s'_def)
  from True 2 have "objs s' = (objs s)[w := None]
           \<and> (if p = 0 then deleted s' = deleted s \<and> mem s' = mem s
               else deleted s' = deleted s @ [p] \<and> mem s' = (mem s)[p - 1 := Freed])"
    by (simp only: if_True simp_thms)
  with 1 show ?thesis by (rule Inr_exI)
next
  case False
  define s' where "s' = s\<lparr>mem := (mem s)[p - 1 := Freed], deleted := deleted s @ [p],
               objs := (objs s)[w := None]\<rparr>"
  from False ok have l: "live s p" by simp
  have 1: "dtor w s = Inr s'"
    by (simp add: dtor_def destroy_owned[OF t l] end_object_def s'_def)
  have 2: "objs s' = (objs s)[w := None]" "deleted s' = deleted s @ [p]"
    "mem s' = (mem s)[p - 1 := Freed]"
    by (simp_all add: s'_def)
  from False 2 have "objs s' = (objs s)[w := None]
           \<and> (if p = 0 then deleted s' = deleted s \<and> mem s' = mem s
               else deleted s' = deleted s @ [p] \<and> mem s' = (mem s)[p - 1 := Freed])"
    by (simp only: if_False simp_thms)
  with 1 show ?thesis by (rule Inr_exI)
qed


subsection \<open>Single ownership\<close>




section \<open>Properties of the traits, of piercing and of the container\<close>

subsection \<open>The trait \<open>wrap_if_throwing_move\<close>\<close>

theorem C8_counterexample:
  "is_nothrow_move_constructible no_classes (Reference int_type) \<and>
   wrap_if_throwing_move no_classes (Reference int_type) = None"
  by (simp add: wrap_if_throwing_move_def)

lemma ctor_move_pointer_only:
  assumes r: "m_t_of rhs s = Inr p"
  shows "\<exists>this s'. ctor_move rhs s = Inr (this, s') \<and> mem s' = mem s
           \<and> m_t_of this s' = Inr p \<and> m_t_of rhs s' = Inr 0"
proof -
  define s' where "s' = s\<lparr>objs := (objs s @ [Some p])[rhs := Some 0]\<rparr>"
  from r have b: "rhs < length (objs s)" by (rule m_t_of_bound)
  have 1: "ctor_move rhs s = Inr (length (objs s), s')"
    unfolding s'_def by (rule ctor_move_eq[OF r])
  have 2: "mem s' = mem s" by (simp add: s'_def)
  have 3: "m_t_of (length (objs s)) s' = Inr p" "m_t_of rhs s' = Inr 0"
    using b by (simp_all add: s'_def m_t_of_def nth_list_update nth_append)
  from 1 2 3 show ?thesis by blast
qed

text \<open>
  Claim C8, as amended. For a type \<open>T\<close> that is no-throw destructible and not a reference, the
  trait gives \<open>T\<close> itself when \<open>T\<close> is no-throw move-constructible and
  \<open>recursive_wrapper<T>\<close> otherwise; for any other \<open>T\<close> it gives no type. Every type it gives is
  no-throw move-constructible, and moving a wrapper only transfers the pointer: the move
  constructor returns for every live source and leaves all of memory as it was. The theorem
  before this one is the counterexample to the claim as stated: \<open>int &\<close> is no-throw
  move-constructible, and the trait maps it to nothing.
\<close>

theorem C8_wrap_if_throwing_move:
  "(is_nothrow_destructible env T \<and> \<not> is_reference T \<longrightarrow>
      (is_nothrow_move_constructible env T \<longrightarrow> wrap_if_throwing_move env T = Some T)
    \<and> (\<not> is_nothrow_move_constructible env T \<longrightarrow>
          wrap_if_throwing_move env T = Some (Recursive_wrapper T)))
   \<and> (\<not> (is_nothrow_destructible env T \<and> \<not> is_reference T) \<longrightarrow>
          wrap_if_throwing_move env T = None)
   \<and> (\<forall>T'. wrap_if_throwing_move env T = Some T' \<longrightarrow> is_nothrow_move_constructible env T')
   \<and> (\<forall>rhs (s :: 'a state) p. m_t_of rhs s = Inr p \<longrightarrow>
          (\<exists>this s'. ctor_move rhs s = Inr (this, s') \<and> mem s' = mem s
              \<and> m_t_of this s' = Inr p \<and> m_t_of rhs s' = Inr 0))"
proof (intro conjI allI impI)
  fix rhs and s :: "'a state" and p assume "m_t_of rhs s = Inr p"
  then show "\<exists>this s'. ctor_move rhs s = Inr (this, s') \<and> mem s' = mem s
              \<and> m_t_of this s' = Inr p \<and> m_t_of rhs s' = Inr 0"
    by (rule ctor_move_pointer_only)
qed (auto simp: wrap_if_throwing_move_def split: if_splits)

theorem C8_wrap_if_throwing_move_witness:
  "is_nothrow_destructible legacy_classes (Class ''legacy'') \<and> \<not> is_reference (Class ''legacy'')
   \<and> \<not> is_nothrow_move_constructible legacy_classes (Class ''legacy'')
   \<and> wrap_if_throwing_move legacy_classes (Class ''legacy'') = Some (Recursive_wrapper (Class ''legacy''))
   \<and> is_nothrow_move_constructible legacy_classes (Recursive_wrapper (Class ''legacy''))
   \<and> wrap_if_throwing_move legacy_classes int_type = Some int_type
   \<and> (\<exists>this s'. ctor_move 0 two_wrappers = Inr (this, s') \<and> mem s' = mem two_wrappers
          \<and> m_t_of this s' = Inr 1 \<and> m_t_of 0 s' = Inr 0)"
proof -
  have h: "is_nothrow_destructible legacy_classes (Class ''legacy'')"
    "\<not> is_reference (Class ''legacy'')"
    "\<not> is_nothrow_move_constructible legacy_classes (Class ''legacy'')"
    "is_nothrow_destructible legacy_classes int_type" "\<not> is_reference int_type"
    "is_nothrow_move_constructible legacy_classes int_type"
    by (simp_all add: legacy_classes_def int_type_def)
  note a = C8_wrap_if_throwing_move[of legacy_classes "Class ''legacy''", where 'a = nat]
  note b = C8_wrap_if_throwing_move[of legacy_classes int_type, where 'a = nat]
  from a h(1,2,3) have 1: "wrap_if_throwing_move legacy_classes (Class ''legacy'')
      = Some (Recursive_wrapper (Class ''legacy''))" by blast
  with a have 2: "is_nothrow_move_constructible legacy_classes (Recursive_wrapper (Class ''legacy''))"
    by blast
  from b h(4,5,6) have 3: "wrap_if_throwing_move legacy_classes int_type = Some int_type" by blast
  from a two_wrappers_facts(1)
  have 4: "\<exists>this s'. ctor_move 0 two_wrappers = Inr (this, s') \<and> mem s' = mem two_wrappers
          \<and> m_t_of this s' = Inr 1 \<and> m_t_of 0 s' = Inr 0" by blast
  from h(1,2,3) 1 2 3 4 show ?thesis by blast
qed

subsection \<open>Type-indexed access on a mismatch\<close>

text \<open>
  Claim C9. Whatever the state of the container and of memory, a lookup with a type that is
  not the active alternative (both unwrapped) returns the null result and no failure, and the
  null result is returned in no other case. Access takes no account of conversions: the
  result is the same whether or not the active alternative converts to the requested type.
\<close>

theorem C9_access_mismatch:
  "(\<not> (which v < length alts \<and> unwrap_type (alts ! which v) = unwrap_type T) \<longrightarrow>
      access alts T v s = Inr None)
   \<and> (access alts T v s = Inr None \<longrightarrow>
      \<not> (which v < length alts \<and> unwrap_type (alts ! which v) = unwrap_type T))"
  by (auto simp: access_def and_then_eq_Inr split: storage.splits)

theorem C9_access_mismatch_witness:
  "\<not> (which holds_six < length [int_type, Arithmetic SignedInteger 64]
       \<and> unwrap_type ([int_type, Arithmetic SignedInteger 64] ! which holds_six)
           = unwrap_type (Arithmetic SignedInteger 64))
   \<and> safe_widening int_type (Arithmetic SignedInteger 64)
   \<and> access [int_type, Arithmetic SignedInteger 64] (Arithmetic SignedInteger 64) holds_six
        (empty_state :: tutorial_value state) = Inr None"
proof -
  have h: "\<not> (which holds_six < length [int_type, Arithmetic SignedInteger 64]
       \<and> unwrap_type ([int_type, Arithmetic SignedInteger 64] ! which holds_six)
           = unwrap_type (Arithmetic SignedInteger 64))"
    by (simp add: holds_six_def int_type_def)
  have w: "safe_widening int_type (Arithmetic SignedInteger 64)"
    by (simp add: safe_widening_def int_type_def)
  from C9_access_mismatch[of holds_six "[int_type, Arithmetic SignedInteger 64]"
      "Arithmetic SignedInteger 64" "empty_state :: tutorial_value state"] h w
  show ?thesis by blast
qed

subsection \<open>Piercing and wrapper transparency\<close>

lemma pierce_owned:
  "m_t_of w s = Inr p \<Longrightarrow> live s p \<Longrightarrow> pierce_recursive_wrapper q w s = Inr p"
  by (cases q) (simp_all only: pierce_recursive_wrapper.simps get_owned)

lemma access_direct:
  "which v < length alts \<Longrightarrow> unwrap_type (alts ! which v) = unwrap_type T \<Longrightarrow>
   stored v = Direct x \<Longrightarrow> access alts T v s = Inr (Some x)"
  by (simp add: access_def)

lemma access_indirect:
  assumes "which v < length alts" "unwrap_type (alts ! which v) = unwrap_type T"
    and "stored v = Indirect w" "m_t_of w s = Inr p" "load p s = Inr x"
  shows "access alts T v s = Inr (Some x)"
proof -
  from assms(5) have "live s p" by (simp add: load_eq_Inr live_cell)
  with assms(4) have "pierce_recursive_wrapper ConstLvalue w s = Inr p" by (rule pierce_owned)
  with assms show ?thesis by (simp add: access_def)
qed

lemma access_mismatch:
  "\<not> (which v < length alts \<and> unwrap_type (alts ! which v) = unwrap_type T) \<Longrightarrow>
   access alts T v s = Inr None"
  by (auto simp: access_def)

lemma apply_visitor_direct:
  "stored v = Direct x \<Longrightarrow>
   apply_visitor vis alts v s =
     (if list_ex (\<lambda>A. vis (unwrap_type A) = None) alts \<or> length alts \<le> which v
      then Inl IllFormed
      else case vis (unwrap_type (alts ! which v)) of
             None \<Rightarrow> Inl IllFormed | Some f \<Rightarrow> Inr (f x))"
  by (simp add: apply_visitor_def split: option.splits)

lemma apply_visitor_indirect:
  assumes "stored v = Indirect w" "m_t_of w s = Inr p" "load p s = Inr x"
  shows "apply_visitor vis alts v s =
     (if list_ex (\<lambda>A. vis (unwrap_type A) = None) alts \<or> length alts \<le> which v
      then Inl IllFormed
      else case vis (unwrap_type (alts ! which v)) of
             None \<Rightarrow> Inl IllFormed | Some f \<Rightarrow> Inr (f x))"
proof -
  from assms(3) have "live s p" by (simp add: load_eq_Inr live_cell)
  with assms(2) have "pierce_recursive_wrapper ConstLvalue w s = Inr p" by (rule pierce_owned)
  with assms show ?thesis by (simp add: apply_visitor_def split: option.splits)
qed

lemma same_unwrapped:
  assumes "map unwrap_type alts1 = map unwrap_type alts2"
  shows "length alts1 = length alts2"
    and "i < length alts1 \<Longrightarrow> unwrap_type (alts1 ! i) = unwrap_type (alts2 ! i)"
    and "list_ex (\<lambda>A. P (unwrap_type A)) alts1 = list_ex (\<lambda>A. P (unwrap_type A)) alts2"
proof -
  from assms show l: "length alts1 = length alts2" by (rule map_eq_imp_length_eq)
  show "i < length alts1 \<Longrightarrow> unwrap_type (alts1 ! i) = unwrap_type (alts2 ! i)"
    using assms l by (metis nth_map)
  have e: "list_ex (\<lambda>A. P (unwrap_type A)) alts = list_ex P (map unwrap_type alts)" for alts
    by (induction alts) simp_all
  show "list_ex (\<lambda>A. P (unwrap_type A)) alts1 = list_ex (\<lambda>A. P (unwrap_type A)) alts2"
    unfolding e assms ..
qed

text \<open>
  Claim C7. On a bare value, piercing returns its argument, in each qualification. On a wrapper
  that owns a value, piercing returns the reference to the pointee, in each qualification.
  Consequently, for two containers whose alternative lists agree after unwrapping and whose
  active alternative is the same, one holding the value \<open>x\<close> in place and the other holding a
  wrapper whose pointee is \<open>x\<close>, access gives the same result for every requested type and
  dispatch gives the same result for every visitor.
\<close>

theorem C7_pierce_transparency:
  "(\<forall>q. pierce_recursive_wrapper_bare q t = t)
   \<and> (\<forall>q w (s :: 'a state) p. m_t_of w s = Inr p \<and> live s p \<longrightarrow>
         pierce_recursive_wrapper q w s = Inr p)
   \<and> (\<forall>alts1 alts2 (v1 :: 'a variant) (v2 :: 'a variant) (s :: 'a state) w p x.
         map unwrap_type alts1 = map unwrap_type alts2 \<and> which v1 = which v2
         \<and> stored v1 = Direct x \<and> stored v2 = Indirect w
         \<and> m_t_of w s = Inr p \<and> load p s = Inr x \<longrightarrow>
           (\<forall>T. access alts1 T v1 s = access alts2 T v2 s)
         \<and> (\<forall>vis :: cpp_type \<Rightarrow> ('a \<Rightarrow> 'r) option.
               apply_visitor vis alts1 v1 s = apply_visitor vis alts2 v2 s))"
proof (intro conjI allI impI)
  fix q show "pierce_recursive_wrapper_bare q t = t" by (cases q) simp_all
next
  fix q w and s :: "'a state" and p assume "m_t_of w s = Inr p \<and> live s p"
  then show "pierce_recursive_wrapper q w s = Inr p" by (simp add: pierce_owned)
next
  fix alts1 alts2 and v1 v2 :: "'a variant" and s :: "'a state" and w p x T
  assume a: "map unwrap_type alts1 = map unwrap_type alts2 \<and> which v1 = which v2
         \<and> stored v1 = Direct x \<and> stored v2 = Indirect w
         \<and> m_t_of w s = Inr p \<and> load p s = Inr x"
  then have m: "map unwrap_type alts1 = map unwrap_type alts2" by blast
  note u = same_unwrapped[OF m]
  show "access alts1 T v1 s = access alts2 T v2 s"
  proof (cases "which v1 < length alts1 \<and> unwrap_type (alts1 ! which v1) = unwrap_type T")
    case True
    with a u(1) u(2)[of "which v1"]
    have "which v2 < length alts2 \<and> unwrap_type (alts2 ! which v2) = unwrap_type T" by simp
    with True a show ?thesis by (simp add: access_direct access_indirect)
  next
    case False
    with a u(1) u(2)[of "which v1"]
    have "\<not> (which v2 < length alts2 \<and> unwrap_type (alts2 ! which v2) = unwrap_type T)" by auto
    with False show ?thesis by (simp add: access_mismatch)
  qed
next
  fix alts1 alts2 and v1 v2 :: "'a variant" and s :: "'a state" and w p x
    and vis :: "cpp_type \<Rightarrow> ('a \<Rightarrow> 'r) option"
  assume a: "map unwrap_type alts1 = map unwrap_type alts2 \<and> which v1 = which v2
         \<and> stored v1 = Direct x \<and> stored v2 = Indirect w
         \<and> m_t_of w s = Inr p \<and> load p s = Inr x"
  then have m: "map unwrap_type alts1 = map unwrap_type alts2" by blast
  note u = same_unwrapped[OF m]
  from a have 1: "apply_visitor vis alts1 v1 s =
     (if list_ex (\<lambda>A. vis (unwrap_type A) = None) alts1 \<or> length alts1 \<le> which v1
      then Inl IllFormed
      else case vis (unwrap_type (alts1 ! which v1)) of
             None \<Rightarrow> Inl IllFormed | Some f \<Rightarrow> Inr (f x))"
    by (simp add: apply_visitor_direct)
  from a have 2: "apply_visitor vis alts2 v2 s =
     (if list_ex (\<lambda>A. vis (unwrap_type A) = None) alts2 \<or> length alts2 \<le> which v2
      then Inl IllFormed
      else case vis (unwrap_type (alts2 ! which v2)) of
             None \<Rightarrow> Inl IllFormed | Some f \<Rightarrow> Inr (f x))"
    by (simp add: apply_visitor_indirect)
  from a have w: "which v1 = which v2" by blast
  show "apply_visitor vis alts1 v1 s = apply_visitor vis alts2 v2 s"
    unfolding 1 2 using u(1) u(2)[of "which v1"] u(3)[of "\<lambda>T. vis T = None"] w
    by (auto split: option.splits)
qed

theorem C7_pierce_transparency_witness:
  "m_t_of 0 two_wrappers = Inr 1 \<and> live two_wrappers 1 \<and> load 1 two_wrappers = Inr 10
   \<and> pierce_recursive_wrapper Rvalue 0 two_wrappers = Inr 1
   \<and> map unwrap_type [int_type] = map unwrap_type [Recursive_wrapper int_type]
   \<and> access [int_type] int_type int_in_place two_wrappers
       = access [Recursive_wrapper int_type] int_type int_wrapped two_wrappers
   \<and> apply_visitor (\<lambda>T. Some Suc) [int_type] int_in_place two_wrappers
       = apply_visitor (\<lambda>T. Some Suc) [Recursive_wrapper int_type] int_wrapped two_wrappers"
proof -
  note c = C7_pierce_transparency[where 'a = nat and 'r = nat]
  note h = two_wrappers_facts(1,2) two_wrappers_load
  have m: "map unwrap_type [int_type] = map unwrap_type [Recursive_wrapper int_type]"
    by (simp add: int_type_def)
  have v: "which int_in_place = which int_wrapped" "stored int_in_place = Direct 10"
    "stored int_wrapped = Indirect 0"
    by (simp_all add: int_in_place_def int_wrapped_def)
  have 1: "pierce_recursive_wrapper Rvalue 0 two_wrappers = Inr 1"
    by (rule c[THEN conjunct2, THEN conjunct1, rule_format, OF conjI[OF h(1) h(2)]])
  have p: "map unwrap_type [int_type] = map unwrap_type [Recursive_wrapper int_type]
         \<and> which int_in_place = which int_wrapped
         \<and> stored int_in_place = Direct 10 \<and> stored int_wrapped = Indirect 0
         \<and> m_t_of 0 two_wrappers = Inr 1 \<and> load 1 two_wrappers = Inr 10"
    using m v h by (intro conjI)
  note d = c[THEN conjunct2, THEN conjunct2, rule_format, OF p]
  have 2: "access [int_type] int_type int_in_place two_wrappers
       = access [Recursive_wrapper int_type] int_type int_wrapped two_wrappers"
    by (rule d[THEN conjunct1, rule_format])
  have 3: "apply_visitor (\<lambda>T. Some Suc) [int_type] int_in_place two_wrappers
       = apply_visitor (\<lambda>T. Some Suc) [Recursive_wrapper int_type] int_wrapped two_wrappers"
    by (rule d[THEN conjunct2, rule_format])
  from h 1 m 2 3 show ?thesis by (intro conjI)
qed

subsection \<open>Resolution\<close>

lemma filter_eq_singleton:
  "distinct xs \<Longrightarrow> i \<in> set xs \<Longrightarrow> filter (\<lambda>j. j = i) xs = [i]"
  by (induction xs) (auto simp: filter_empty_conv)

lemma candidates_unique:
  assumes i: "i < length alts" "P (alts ! i)"
    and u: "\<And>j. j < length alts \<Longrightarrow> P (alts ! j) \<Longrightarrow> j = i"
  shows "candidates P alts = [i]"
proof -
  have e: "P (alts ! j) \<longleftrightarrow> j = i" if "j \<in> set [0..<length alts]" for j
  proof
    assume "P (alts ! j)"
    moreover from that have "j < length alts" by simp
    ultimately show "j = i" by (rule u[rotated])
  next
    assume "j = i"
    with i(2) show "P (alts ! j)" by simp
  qed
  have "filter (\<lambda>j. P (alts ! j)) [0..<length alts] = filter (\<lambda>j. j = i) [0..<length alts]"
    by (rule filter_cong[OF refl e])
  also have "\<dots> = [i]" using i(1) by (intro filter_eq_singleton) simp_all
  finally show ?thesis by (simp add: candidates_def)
qed

lemma set_candidates: "set (candidates P alts) = {i. i < length alts \<and> P (alts ! i)}"
  by (auto simp: candidates_def)

lemma first_nonempty_tiers:
  "first_nonempty (tiers conv U alts) =
     (if candidates (exact_match U) alts \<noteq> [] then candidates (exact_match U) alts
      else if candidates (safe_widening U) alts \<noteq> [] then candidates (safe_widening U) alts
      else candidates (other_conversion conv U) alts)"
  by (simp add: tiers_def)

lemma first_nonempty_admitted:
  assumes "i \<in> set (first_nonempty (tiers conv U alts))"
  shows "i < length alts \<and> admitted conv U (alts ! i)"
  using assms unfolding first_nonempty_tiers admitted_def
  by (auto simp: set_candidates split: if_splits)

lemma resolve_Inr_iff:
  "resolve conv U alts = Inr i \<longleftrightarrow>
     distinct (map unwrap_type alts) \<and> first_nonempty (tiers conv U alts) = [i]"
  by (auto simp: resolve_def split: list.splits)

lemma resolve_exact:
  assumes d: "distinct (map unwrap_type alts)"
    and i: "i < length alts" "unwrap_type (alts ! i) = unwrap_type U"
  shows "resolve conv U alts = Inr i"
proof -
  have "candidates (exact_match U) alts = [i]"
  proof (rule candidates_unique)
    show "i < length alts" by fact
    show "exact_match U (alts ! i)" using i(2) by (simp add: exact_match_def)
    fix j assume j: "j < length alts" "exact_match U (alts ! j)"
    then have "map unwrap_type alts ! j = map unwrap_type alts ! i"
      using i by (simp add: exact_match_def)
    with d i(1) j(1) show "j = i"
      using nth_eq_iff_index_eq[of "map unwrap_type alts" j i] by simp
  qed
  then have "first_nonempty (tiers conv U alts) = [i]" by (simp add: first_nonempty_tiers)
  with d show ?thesis by (simp add: resolve_Inr_iff)
qed

lemma resolve_ambiguous:
  "distinct (map unwrap_type alts) \<Longrightarrow> 1 < length (first_nonempty (tiers conv U alts)) \<Longrightarrow>
   resolve conv U alts = Inl Ambiguous"
  by (auto simp: resolve_def split: list.splits)

lemma resolve_no_match:
  "distinct (map unwrap_type alts) \<Longrightarrow> first_nonempty (tiers conv U alts) = [] \<Longrightarrow>
   resolve conv U alts = Inl No_match"
  by (simp add: resolve_def)

lemma admitted_arithmetic:
  assumes "admitted conv U A" "is_arithmetic (unwrap_type U)" "is_arithmetic (unwrap_type A)"
  shows "widening (unwrap_type U) (unwrap_type A)"
proof -
  from assms(2,3) obtain cu wu ca wa where
    e: "unwrap_type U = Arithmetic cu wu" "unwrap_type A = Arithmetic ca wa"
    by (cases "unwrap_type U"; cases "unwrap_type A") simp_all
  with assms(1) show ?thesis
    by (auto simp: admitted_def exact_match_def safe_widening_def other_conversion_def)
qed

lemma resolve_int64:
  "resolve conv (Arithmetic SignedInteger 64)
     [Arithmetic SignedInteger 32, Arithmetic SignedInteger 64] = Inr 1"
  by (rule resolve_exact) simp_all

lemma resolve_floating:
  "resolve conv (Arithmetic FloatingPoint w)
     [Arithmetic SignedInteger 32, Arithmetic FloatingPoint 64] \<noteq> Inr 0"
proof
  assume "resolve conv (Arithmetic FloatingPoint w)
     [Arithmetic SignedInteger 32, Arithmetic FloatingPoint 64] = Inr 0"
  then have "0 \<in> set (first_nonempty (tiers conv (Arithmetic FloatingPoint w)
     [Arithmetic SignedInteger 32, Arithmetic FloatingPoint 64]))"
    by (simp add: resolve_Inr_iff)
  from first_nonempty_admitted[OF this]
  have "admitted conv (Arithmetic FloatingPoint w) (Arithmetic SignedInteger 32)" by simp
  from admitted_arithmetic[OF this] show False by simp
qed

theorem C2_counterexample:
  "resolve (convertible tutorial_host) literal_type tutorial_alts = Inr 1
   \<and> \<not> exact_match literal_type (tutorial_alts ! 1)
   \<and> \<not> safe_widening literal_type (tutorial_alts ! 1)"
  by (simp add: resolve_def tiers_def candidates_def exact_match_def safe_widening_def
      other_conversion_def tutorial_host_def tutorial_alts_def literal_type_def string_type_def
      int_type_def upt_rec)

text \<open>
  Claim C2, as amended. The resolver selects an alternative only when the list has no type
  twice and the most-preferred tier that has a candidate has exactly one, which it selects; when
  that tier has more than one candidate it fails as ambiguous, whatever their order. The
  alternative selected is an exact match, a widening within one arithmetic category, or the
  target of a user-defined or implicit conversion between types that are not both arithmetic;
  between two arithmetic types only the same category and an equal or greater width are ever
  admitted. Over \<open>{int32, int64}\<close> a 64-bit signed integer selects \<open>int64\<close>; over
  \<open>{int32, double}\<close> a floating value never selects \<open>int32\<close>. The theorem before this one is
  the counterexample to the claim as stated: the tutorial's \<open>variant<int, std::string>\<close> resolves a
  string literal to \<open>std::string\<close>, which is neither an exact match nor a widening.
\<close>

theorem C2_strict_resolution:
  "(\<forall>i. resolve conv U alts = Inr i \<longrightarrow>
        i < length alts \<and> admitted conv U (alts ! i)
      \<and> distinct (map unwrap_type alts) \<and> first_nonempty (tiers conv U alts) = [i])
   \<and> (\<forall>i. distinct (map unwrap_type alts) \<and> first_nonempty (tiers conv U alts) = [i] \<longrightarrow>
        resolve conv U alts = Inr i)
   \<and> (distinct (map unwrap_type alts) \<and> 1 < length (first_nonempty (tiers conv U alts)) \<longrightarrow>
        resolve conv U alts = Inl Ambiguous)
   \<and> (\<forall>A. admitted conv U A \<and> is_arithmetic (unwrap_type U) \<and> is_arithmetic (unwrap_type A) \<longrightarrow>
        widening (unwrap_type U) (unwrap_type A))
   \<and> (\<forall>cu wu X. widening (Arithmetic cu wu) X \<longrightarrow> (\<exists>wa. X = Arithmetic cu wa \<and> wu \<le> wa))
   \<and> resolve conv (Arithmetic SignedInteger 64)
        [Arithmetic SignedInteger 32, Arithmetic SignedInteger 64] = Inr 1
   \<and> (\<forall>w. resolve conv (Arithmetic FloatingPoint w)
        [Arithmetic SignedInteger 32, Arithmetic FloatingPoint 64] \<noteq> Inr 0)"
proof (intro conjI allI impI)
  fix i assume r: "resolve conv U alts = Inr i"
  then show "distinct (map unwrap_type alts)" "first_nonempty (tiers conv U alts) = [i]"
    by (simp_all add: resolve_Inr_iff)
  then have "i \<in> set (first_nonempty (tiers conv U alts))" by simp
  from first_nonempty_admitted[OF this]
  show "i < length alts" "admitted conv U (alts ! i)" by simp_all
next
  fix i assume "distinct (map unwrap_type alts) \<and> first_nonempty (tiers conv U alts) = [i]"
  then show "resolve conv U alts = Inr i" by (simp add: resolve_Inr_iff)
next
  assume "distinct (map unwrap_type alts) \<and> 1 < length (first_nonempty (tiers conv U alts))"
  then show "resolve conv U alts = Inl Ambiguous" by (simp add: resolve_ambiguous)
next
  fix A
  assume "admitted conv U A \<and> is_arithmetic (unwrap_type U) \<and> is_arithmetic (unwrap_type A)"
  then show "widening (unwrap_type U) (unwrap_type A)" by (blast intro: admitted_arithmetic)
next
  fix cu wu X assume "widening (Arithmetic cu wu) X"
  then show "\<exists>wa. X = Arithmetic cu wa \<and> wu \<le> wa" by (cases X) simp_all
next
  show "resolve conv (Arithmetic SignedInteger 64)
        [Arithmetic SignedInteger 32, Arithmetic SignedInteger 64] = Inr 1"
    by (rule resolve_int64)
next
  fix w show "resolve conv (Arithmetic FloatingPoint w)
        [Arithmetic SignedInteger 32, Arithmetic FloatingPoint 64] \<noteq> Inr 0"
    by (rule resolve_floating)
qed

lemma resolve_literal: "resolve (convertible tutorial_host) literal_type tutorial_alts = Inr 1"
  by (simp add: resolve_def tiers_def candidates_def exact_match_def safe_widening_def
      other_conversion_def tutorial_host_def tutorial_alts_def literal_type_def string_type_def
      int_type_def upt_rec)

theorem C2_strict_resolution_witness:
  "resolve (convertible tutorial_host) literal_type tutorial_alts = Inr 1
   \<and> admitted (convertible tutorial_host) literal_type (tutorial_alts ! 1)
   \<and> first_nonempty (tiers (convertible tutorial_host) literal_type tutorial_alts) = [1]
   \<and> resolve (convertible tutorial_host) (Arithmetic SignedInteger 64)
        [Arithmetic SignedInteger 32, Arithmetic SignedInteger 64] = Inr 1"
proof -
  note c = C2_strict_resolution[of "convertible tutorial_host" literal_type tutorial_alts]
  note d = c[THEN conjunct1, rule_format, OF resolve_literal]
  note e = c[THEN conjunct2, THEN conjunct2, THEN conjunct2, THEN conjunct2, THEN conjunct2,
             THEN conjunct1]
  from resolve_literal d e show ?thesis by (intro conjI) simp_all
qed

subsection \<open>Round trip through assignment and access\<close>

lemma target_value_exact: "type_of h u = unwrap_type A \<Longrightarrow> target_value h A u = u"
  by (simp add: target_value_def)

lemma assign_rvalue_owned:
  assumes t: "m_t_of w s = Inr p" and l: "live s p"
  shows "\<exists>s'. assign_rvalue w x s = Inr s' \<and> (m_t_of w s' = Inr p \<and> load p s' = Inr x)"
proof -
  define s' where "s' = s\<lparr>mem := (mem s)[p - 1 := Live x]\<rparr>"
  have 1: "assign_rvalue w x s = Inr s'"
    unfolding assign_rvalue_def s'_def by (rule assign_owned[OF t l])
  have m: "mem s' = (mem s)[p - 1 := Live x]" and o: "objs s' = objs s"
    by (simp_all add: s'_def)
  from cell_at_update[OF m] live_bound[OF l] have "cell_at s' p = Some (Live x)" by simp
  then have "load p s' = Inr x" by (rule load_cell)
  moreover from t have "m_t_of w s' = Inr p" by (simp add: m_t_of_cong[OF o])
  ultimately have "m_t_of w s' = Inr p \<and> load p s' = Inr x" by blast
  with 1 show ?thesis by (rule Inr_exI)
qed

lemma destroy_active_ok:
  assumes "\<forall>w. stored v = Indirect w \<longrightarrow> (\<exists>p. m_t_of w s = Inr p \<and> live s p)"
  shows "\<exists>s1. destroy_active v s = Inr s1"
proof (cases "stored v")
  case (Direct x)
  then show ?thesis by (simp add: destroy_active_def)
next
  case (Indirect w)
  with assms obtain p where "m_t_of w s = Inr p" "live s p" by blast
  then have "\<exists>s'. dtor w s = Inr s' \<and> (objs s' = (objs s)[w := None]
           \<and> (if p = 0 then deleted s' = deleted s \<and> mem s' = mem s
               else deleted s' = deleted s @ [p] \<and> mem s' = (mem s)[p - 1 := Freed]))"
    by (intro dtor_owned) simp_all
  then obtain s' where "dtor w s = Inr s'" by blast
  with Indirect show ?thesis by (simp add: destroy_active_def)
qed

lemma construct_alternative_exact:
  assumes e: "type_of h u = unwrap_type A"
  shows "\<exists>st s'. construct_alternative h A u s = Inr (st, s') \<and>
           ((\<exists>x. st = Direct x \<and> x = u) \<or>
            (\<exists>w p. st = Indirect w \<and> m_t_of w s' = Inr p \<and> load p s' = Inr u))"
proof (cases "\<exists>B. A = Recursive_wrapper B")
  case True
  then obtain B where A: "A = Recursive_wrapper B" by blast
  obtain w s' where c: "(w, s') = construct (target_value h A u) s" by (metis surj_pair)
  then have 1: "ctor_from (Some (target_value h A)) u s = Inr (w, s')"
    by (simp add: ctor_from_eq)
  from constructed_get[OF c] target_value_exact[OF e]
  have 2: "m_t_of w s' = Inr (Suc (length (mem s)))" "load (Suc (length (mem s))) s' = Inr u"
    by simp_all
  from A 1 have "construct_alternative h A u s = Inr (Indirect w, s')"
    by (simp add: construct_alternative_def)
  with 2 show ?thesis by blast
next
  case False
  then have "construct_alternative h A u s = Inr (Direct (target_value h A u), s)"
    by (cases A) (simp_all add: construct_alternative_def)
  with target_value_exact[OF e] show ?thesis by simp
qed

lemma access_after:
  assumes i: "i < length alts" "unwrap_type (alts ! i) = T" and nw: "unwrap_type T = T"
    and w: "which v' = i"
    and st: "stored v' = Direct u \<or>
             (\<exists>w p. stored v' = Indirect w \<and> m_t_of w s' = Inr p \<and> load p s' = Inr u)"
  shows "access alts T v' s' = Inr (Some u)
       \<and> (\<forall>U \<in> set alts. unwrap_type U \<noteq> T \<longrightarrow> access alts U v' s' = Inr None)"
proof
  from i w nw have m: "which v' < length alts" "unwrap_type (alts ! which v') = unwrap_type T"
    by simp_all
  from st show "access alts T v' s' = Inr (Some u)"
  proof
    assume "stored v' = Direct u"
    with m show ?thesis by (rule access_direct)
  next
    assume "\<exists>w p. stored v' = Indirect w \<and> m_t_of w s' = Inr p \<and> load p s' = Inr u"
    then obtain w p where "stored v' = Indirect w" "m_t_of w s' = Inr p" "load p s' = Inr u"
      by blast
    with m show ?thesis by (rule access_indirect)
  qed
  show "\<forall>U \<in> set alts. unwrap_type U \<noteq> T \<longrightarrow> access alts U v' s' = Inr None"
  proof (intro ballI impI)
    fix U assume "unwrap_type U \<noteq> T"
    with i w have "\<not> (which v' < length alts \<and> unwrap_type (alts ! which v') = unwrap_type U)"
      by auto
    then show "access alts U v' s' = Inr None" by (rule access_mismatch)
  qed
qed

lemma variant_assign_exact:
  assumes r: "resolve (convertible h) (type_of h u) alts = Inr i"
    and e: "type_of h u = unwrap_type (alts ! i)"
    and same: "i = which v \<Longrightarrow> \<forall>w. stored v = Indirect w \<longrightarrow> (\<exists>p. m_t_of w s = Inr p \<and> live s p)"
    and other: "i \<noteq> which v \<Longrightarrow> \<exists>s1. destroy_active v s = Inr s1"
  shows "\<exists>v' s'. variant_assign h alts v u s = Inr (v', s') \<and> which v' = i \<and>
           (stored v' = Direct u \<or>
            (\<exists>w p. stored v' = Indirect w \<and> m_t_of w s' = Inr p \<and> load p s' = Inr u))"
proof (cases "i = which v")
  case True
  show ?thesis
  proof (cases "stored v")
    case (Direct y)
    define v' where "v' = v\<lparr>stored := Direct u\<rparr>"
    from r True Direct target_value_exact[OF e]
    have "variant_assign h alts v u s = Inr (v', s)" by (simp add: variant_assign_def v'_def)
    moreover from True have "which v' = i" "stored v' = Direct u" by (simp_all add: v'_def)
    ultimately show ?thesis by blast
  next
    case (Indirect w)
    with same[OF True] obtain p where p: "m_t_of w s = Inr p" "live s p" by blast
    from assign_rvalue_owned[OF p, of u] obtain s' where
      s': "assign_rvalue w u s = Inr s'" "m_t_of w s' = Inr p" "load p s' = Inr u" by blast
    from r True Indirect target_value_exact[OF e] s'(1)
    have "variant_assign h alts v u s = Inr (v, s')" by (simp add: variant_assign_def)
    with True Indirect s'(2,3) show ?thesis by blast
  qed
next
  case False
  from other[OF False] obtain s1 where s1: "destroy_active v s = Inr s1" by blast
  from construct_alternative_exact[OF e, of s1] obtain st s2 where
    c: "construct_alternative h (alts ! i) u s1 = Inr (st, s2)"
    and g: "(\<exists>x. st = Direct x \<and> x = u) \<or>
            (\<exists>w p. st = Indirect w \<and> m_t_of w s2 = Inr p \<and> load p s2 = Inr u)"
    by blast
  define v' :: "'a variant" where "v' = \<lparr>which = i, stored = st\<rparr>"
  from r False s1 c have "variant_assign h alts v u s = Inr (v', s2)"
    by (simp add: variant_assign_def v'_def)
  moreover have "which v' = i" "stored v' = st" by (simp_all add: v'_def)
  ultimately show ?thesis using g by auto
qed

lemma variant_assign_returns:
  assumes r: "resolve (convertible h) (type_of h u) alts = Inr i"
    and a: "variant_assign h alts v u s = Inr res"
  shows "i = which v \<Longrightarrow> \<forall>w. stored v = Indirect w \<longrightarrow> (\<exists>p. m_t_of w s = Inr p \<and> live s p)"
    and "i \<noteq> which v \<Longrightarrow> \<exists>s1. destroy_active v s = Inr s1"
proof -
  assume True: "i = which v"
  show "\<forall>w. stored v = Indirect w \<longrightarrow> (\<exists>p. m_t_of w s = Inr p \<and> live s p)"
  proof (intro allI impI)
    fix w assume w: "stored v = Indirect w"
    with r True a
    have "and_then (assign_rvalue w (target_value h (alts ! i) u) s) (\<lambda>s'. Inr (v, s')) = Inr res"
      by (simp add: variant_assign_def)
    then obtain s' where "assign w (target_value h (alts ! i) u) s = Inr s'"
      unfolding and_then_eq_Inr assign_rvalue_def by blast
    then show "\<exists>p. m_t_of w s = Inr p \<and> live s p" unfolding assign_eq_Inr by blast
  qed
next
  assume False: "i \<noteq> which v"
  with r a
  have "and_then (destroy_active v s) (\<lambda>s1.
          and_then (construct_alternative h (alts ! i) u s1) (\<lambda>r.
            Inr (\<lparr>which = i, stored = fst r\<rparr>, snd r))) = Inr res"
    by (simp add: variant_assign_def)
  then show "\<exists>s1. destroy_active v s = Inr s1"
    unfolding and_then_eq_Inr[of "destroy_active v s"] by blast
qed

text \<open>
  The round trip, for an alternative list that has no type twice after unwrapping, an
  alternative type \<open>T\<close> that is not itself a wrapper and a value \<open>u\<close> of type \<open>T\<close>. Whenever the
  assignment returns, access with \<open>T\<close> then returns a non-null result whose value is \<open>u\<close>, and
  access with any other alternative of the list returns the null result. The assignment does
  return when the wrapper of the active alternative, if it has one, owns a value.
\<close>

lemma round_trip_index:
  assumes d: "distinct (map unwrap_type alts)"
    and T: "T \<in> set (map unwrap_type alts)" and nw: "unwrap_type T = T"
    and ty: "type_of h u = T"
  obtains i where "i < length alts" "unwrap_type (alts ! i) = T"
    "resolve (convertible h) (type_of h u) alts = Inr i" "type_of h u = unwrap_type (alts ! i)"
proof -
  from T obtain i where i: "i < length alts" "unwrap_type (alts ! i) = T"
    by (auto simp: in_set_conv_nth)
  with nw ty have "unwrap_type (alts ! i) = unwrap_type (type_of h u)" by simp
  with d i(1) have r: "resolve (convertible h) (type_of h u) alts = Inr i"
    by (rule resolve_exact)
  from ty i(2) have e: "type_of h u = unwrap_type (alts ! i)" by simp
  from i r e show ?thesis by (rule that)
qed

lemma round_trip_when_returns:
  assumes d: "distinct (map unwrap_type alts)"
    and T: "T \<in> set (map unwrap_type alts)" and nw: "unwrap_type T = T"
    and ty: "type_of h u = T"
    and a: "variant_assign h alts v u s = Inr (v', s')"
  shows "access alts T v' s' = Inr (Some u)
       \<and> (\<forall>U \<in> set alts. unwrap_type U \<noteq> T \<longrightarrow> access alts U v' s' = Inr None)"
proof -
  from d T nw ty obtain i where i: "i < length alts" "unwrap_type (alts ! i) = T"
    and r: "resolve (convertible h) (type_of h u) alts = Inr i"
    and e: "type_of h u = unwrap_type (alts ! i)"
    by (rule round_trip_index)
  note c = variant_assign_returns[OF r a]
  from variant_assign_exact[OF r e c] obtain v'' s'' where
    b: "variant_assign h alts v u s = Inr (v'', s'')" and w: "which v'' = i"
    and st: "stored v'' = Direct u \<or>
            (\<exists>w p. stored v'' = Indirect w \<and> m_t_of w s'' = Inr p \<and> load p s'' = Inr u)"
    by blast
  from a b have "v'' = v'" "s'' = s'" by simp_all
  with w st have "which v' = i" "stored v' = Direct u \<or>
            (\<exists>w p. stored v' = Indirect w \<and> m_t_of w s' = Inr p \<and> load p s' = Inr u)"
    by simp_all
  with i nw show ?thesis by (rule access_after)
qed

lemma round_trip_owning:
  assumes d: "distinct (map unwrap_type alts)"
    and T: "T \<in> set (map unwrap_type alts)" and nw: "unwrap_type T = T"
    and ty: "type_of h u = T"
    and wf: "\<forall>w. stored v = Indirect w \<longrightarrow> (\<exists>p. m_t_of w s = Inr p \<and> live s p)"
  shows "\<exists>v' s'. variant_assign h alts v u s = Inr (v', s')
           \<and> access alts T v' s' = Inr (Some u)
           \<and> (\<forall>U \<in> set alts. unwrap_type U \<noteq> T \<longrightarrow> access alts U v' s' = Inr None)"
proof -
  from d T nw ty obtain i where i: "i < length alts" "unwrap_type (alts ! i) = T"
    and r: "resolve (convertible h) (type_of h u) alts = Inr i"
    and e: "type_of h u = unwrap_type (alts ! i)"
    by (rule round_trip_index)
  from variant_assign_exact[OF r e wf destroy_active_ok[OF wf]] obtain v' s' where
    a: "variant_assign h alts v u s = Inr (v', s')" by blast
  from round_trip_when_returns[OF d T nw ty a] a show ?thesis by blast
qed

lemma round_trip_tutorial:
  "\<exists>v' s'. variant_assign tutorial_host tutorial_alts holds_bar (IntV 6)
                 (empty_state :: tutorial_value state) = Inr (v', s')
          \<and> access tutorial_alts int_type v' s' = Inr (Some (IntV 6))
          \<and> access tutorial_alts string_type v' s' = Inr None"
proof -
  have h: "distinct (map unwrap_type tutorial_alts)"
    "int_type \<in> set (map unwrap_type tutorial_alts)" "unwrap_type int_type = int_type"
    "type_of tutorial_host (IntV 6) = int_type"
    by (simp_all add: tutorial_alts_def int_type_def string_type_def tutorial_host_def)
  have wf: "\<forall>w. stored holds_bar = Indirect w \<longrightarrow>
              (\<exists>p. m_t_of w (empty_state :: tutorial_value state) = Inr p
                 \<and> live (empty_state :: tutorial_value state) p)"
    by (simp add: holds_bar_def)
  have o: "string_type \<in> set tutorial_alts" "unwrap_type string_type \<noteq> int_type"
    by (simp_all add: tutorial_alts_def int_type_def string_type_def)
  from round_trip_owning[OF h wf] obtain v' s' where
    "variant_assign tutorial_host tutorial_alts holds_bar (IntV 6)
                 (empty_state :: tutorial_value state) = Inr (v', s')"
    "access tutorial_alts int_type v' s' = Inr (Some (IntV 6))"
    "\<forall>U \<in> set tutorial_alts. unwrap_type U \<noteq> int_type \<longrightarrow> access tutorial_alts U v' s' = Inr None"
    by blast
  with o show ?thesis by blast
qed

lemma boxed_five_reachable:
  "construct_alternative tutorial_host (Recursive_wrapper int_type) (IntV 5) empty_state
     = Inr (stored boxed_five, boxed_five_state)"
  by (simp add: construct_alternative_def ctor_from_def new_T_def new_object_def
      target_value_def tutorial_host_def int_type_def empty_state_def boxed_five_def
      boxed_five_state_def)


end
